theory Spec2Isabelle
  imports Main "HOL-Library.AList"
begin

section \<open>Data model (shared/src/index.ts)\<close>

text \<open>
  \<^verbatim>\<open>Cell = 0 | 1 | 2\<close> (0 empty, 1 P1, 2 P2) and \<^verbatim>\<open>Board = Cell[][]\<close>, indexed
  \<^verbatim>\<open>[row][col]\<close>; row 0 is the top row.  Indices are JavaScript numbers that hold
  integers, and the scans step by -1 as well as +1, so indices are \<open>int\<close>.
\<close>

type_synonym board = "nat list list"

datatype player_id = P1 | P2

datatype game_status = Waiting | Playing | Won | Draw

record last_move =
  lm_col :: int
  lm_row :: int
  lm_by :: player_id

record game_state =
  roomCode :: string
  status :: game_status
  board :: board
  nextTurn :: player_id
  winner :: "player_id option"
  lastMove :: "last_move option"
  connectedP1 :: bool
  connectedP2 :: bool

text \<open>
  \<^verbatim>\<open>board[r][c]\<close>.  \<open>None\<close> is JavaScript's \<^verbatim>\<open>undefined\<close>: what the read gives for a
  column outside row \<open>r\<close>.  For a row outside the board the read throws a TypeError: the
  server's functions test the row before they read, or do not return (\<open>None\<close>), and the
  client's are stated on boards of 6 rows.
\<close>

definition cell :: "board \<Rightarrow> int \<Rightarrow> int \<Rightarrow> nat option" where
  "cell b r c =
     (if 0 \<le> r \<and> r < int (length b) \<and> 0 \<le> c \<and> c < int (length (b ! nat r))
      then Some (b ! nat r ! nat c) else None)"

text \<open>
  \<^verbatim>\<open>board[r][c] = v\<close>.  Both places that write a cell have just read the value 0 at
  \<open>(r, c)\<close>, so the cell exists; where it does not, the model leaves the board as it is.
\<close>

definition setCell :: "board \<Rightarrow> int \<Rightarrow> int \<Rightarrow> nat \<Rightarrow> board" where
  "setCell b r c v = (if cell b r c = None then b else b[nat r := (b ! nat r)[nat c := v]])"

definition emptyBoard :: board where
  "emptyBoard = replicate 6 (replicate 7 0)"

text \<open>The shape every board of the program has: 6 rows of 7 cells.\<close>

definition wf_board :: "board \<Rightarrow> bool" where
  "wf_board b = (length b = 6 \<and> list_all (\<lambda>r. length r = 7) b)"

section \<open>Move adjudication on the server (server/src/index.ts)\<close>

definition otherPlayer :: "player_id \<Rightarrow> player_id" where
  "otherPlayer p = (if p = P1 then P2 else P1)"

definition cellValue :: "player_id \<Rightarrow> nat" where
  "cellValue p = (if p = P1 then 1 else 2)"

text \<open>
  \<^verbatim>\<open>countDir\<close>: the \<^verbatim>\<open>while\<close> loop, started at \<open>(row + dr, col + dc)\<close>.  With
  \<open>dr = dc = 0\<close> on a matching cell the loop never ends, so the loop is a partial function:
  \<open>None\<close> is "does not return".  \<open>val\<close> is the mark read at the anchor (\<open>None\<close> when
  that read gave \<^verbatim>\<open>undefined\<close>); \<^verbatim>\<open>===\<close> compares it with each cell.
\<close>

partial_function (option) countDir_loop ::
  "board \<Rightarrow> int \<Rightarrow> int \<Rightarrow> int \<Rightarrow> int \<Rightarrow> nat option \<Rightarrow> nat \<Rightarrow> nat option" where
  "countDir_loop b r c dr dc val count =
     (if 0 \<le> r \<and> r < int (length b) \<and> 0 \<le> c \<and> c < int (length (b ! 0)) \<and> cell b r c = val
      then countDir_loop b (r + dr) (c + dc) dr dc val (count + 1)
      else Some count)"

declare countDir_loop.simps [code]

definition countDir :: "board \<Rightarrow> int \<Rightarrow> int \<Rightarrow> int \<Rightarrow> int \<Rightarrow> nat option \<Rightarrow> nat option" where
  "countDir b row col dr dc val = countDir_loop b (row + dr) (col + dc) dr dc val 0"

definition directions :: "(int \<times> int) list" where
  "directions = [(0, 1), (1, 0), (1, 1), (1, -1)]"

fun checkWin_dirs :: "board \<Rightarrow> int \<Rightarrow> int \<Rightarrow> nat option \<Rightarrow> (int \<times> int) list \<Rightarrow> bool option" where
  "checkWin_dirs b row col val [] = Some False"
| "checkWin_dirs b row col val ((dr, dc) # ds) =
     (case countDir b row col dr dc val of
        None \<Rightarrow> None
      | Some n1 \<Rightarrow>
         (case countDir b row col (- dr) (- dc) val of
            None \<Rightarrow> None
          | Some n2 \<Rightarrow>
             if 1 + n1 + n2 \<ge> 4 then Some True else checkWin_dirs b row col val ds))"

text \<open>
  \<^verbatim>\<open>checkWin\<close>.  \<open>None\<close>: the call does not return a value (the TypeError of a row outside
  the board, or a loop that does not end).
\<close>

definition checkWin :: "board \<Rightarrow> int \<Rightarrow> int \<Rightarrow> bool option" where
  "checkWin b row col =
     (if row < 0 \<or> int (length b) \<le> row then None
      else let val = cell b row col in
        if val = Some 0 then Some False else checkWin_dirs b row col val directions)"

text \<open>\<^verbatim>\<open>checkDraw\<close>: \<^verbatim>\<open>board[0].every(cell => cell !== 0)\<close>; a board with no row throws.\<close>

definition checkDraw :: "board \<Rightarrow> bool option" where
  "checkDraw b = (case b of [] \<Rightarrow> None | row0 # _ \<Rightarrow> Some (list_all (\<lambda>x. x \<noteq> 0) row0))"

datatype move_error = NotPlaying | OutOfTurn | InvalidColumn | ColumnFull

text \<open>The \<^verbatim>\<open>error\<close> strings of \<^verbatim>\<open>applyMove\<close>.\<close>

fun errorMessage :: "move_error \<Rightarrow> string" where
  "errorMessage NotPlaying = ''Game is not in playing state''"
| "errorMessage OutOfTurn = ''Not your turn''"
| "errorMessage InvalidColumn = ''Invalid column''"
| "errorMessage ColumnFull = ''Column is full''"

text \<open>
  The body of \<^verbatim>\<open>applyMove\<close>'s \<^verbatim>\<open>for\<close> loop once it has found the empty cell
  \<open>(row, col)\<close>: the state it leaves and the row it returns.
\<close>

definition landMove :: "game_state \<Rightarrow> player_id \<Rightarrow> int \<Rightarrow> int \<Rightarrow> ((move_error + int) \<times> game_state) option" where
  "landMove st byPlayer col row =
     (let b' = setCell (board st) row col (cellValue byPlayer);
          st1 = st\<lparr>board := b', lastMove := Some \<lparr>lm_col = col, lm_row = row, lm_by = byPlayer\<rparr>\<rparr>
      in case checkWin b' row col of
           None \<Rightarrow> None
         | Some True \<Rightarrow> Some (Inr row, st1\<lparr>status := Won, winner := Some byPlayer\<rparr>)
         | Some False \<Rightarrow>
            (case checkDraw b' of
               None \<Rightarrow> None
             | Some True \<Rightarrow> Some (Inr row, st1\<lparr>status := Draw\<rparr>)
             | Some False \<Rightarrow> Some (Inr row, st1\<lparr>nextTurn := otherPlayer byPlayer\<rparr>)))"

text \<open>
  The loop \<^verbatim>\<open>for (let row = board.length - 1; row >= 0; row--)\<close>; the last argument is
  \<open>row + 1\<close>, the number of rows still to look at.
\<close>

fun applyMove_loop :: "game_state \<Rightarrow> player_id \<Rightarrow> int \<Rightarrow> nat \<Rightarrow> ((move_error + int) \<times> game_state) option" where
  "applyMove_loop st byPlayer col 0 = Some (Inl ColumnFull, st)"
| "applyMove_loop st byPlayer col (Suc n) =
     (if cell (board st) (int n) col = Some 0 then landMove st byPlayer col (int n)
      else applyMove_loop st byPlayer col n)"

text \<open>
  \<^verbatim>\<open>applyMove(state, by, col)\<close>: the result (an error or the landed row) and the state
  the call leaves.  \<open>None\<close>: the call does not return.
\<close>

definition applyMove :: "game_state \<Rightarrow> player_id \<Rightarrow> int \<Rightarrow> ((move_error + int) \<times> game_state) option" where
  "applyMove st byPlayer col =
     (if status st \<noteq> Playing then Some (Inl NotPlaying, st)
      else if nextTurn st \<noteq> byPlayer then Some (Inl OutOfTurn, st)
      else if col < 0 \<or> col > 6 then Some (Inl InvalidColumn, st)
      else applyMove_loop st byPlayer col (length (board st)))"

section \<open>The client's board engine and search agent (client App)\<close>

text \<open>
  \<^verbatim>\<open>type Player = 1 | 2\<close> is the mark itself, a \<open>nat\<close> here.  The client's functions index
  rows and columns by the constants \<^verbatim>\<open>ROWS\<close> and \<^verbatim>\<open>COLS\<close>; on a board with fewer rows
  the source throws a TypeError, so the theorems about them are stated for boards of that
  shape (\<open>wf_board\<close>), the only ones the client builds.
\<close>

definition ROWS :: int where
  "ROWS = 6"

definition COLS :: int where
  "COLS = 7"

definition createBoard :: board where
  "createBoard = replicate (nat ROWS) (replicate (nat COLS) 0)"

text \<open>\<^verbatim>\<open>getAvailableRow\<close>: the loop from \<open>ROWS - 1\<close> down to 0; the last argument is \<open>row + 1\<close>.\<close>

fun getAvailableRow_loop :: "board \<Rightarrow> int \<Rightarrow> nat \<Rightarrow> int" where
  "getAvailableRow_loop b col 0 = - 1"
| "getAvailableRow_loop b col (Suc n) =
     (if cell b (int n) col = Some 0 then int n else getAvailableRow_loop b col n)"

definition getAvailableRow :: "board \<Rightarrow> int \<Rightarrow> int" where
  "getAvailableRow b col = getAvailableRow_loop b col (nat ROWS)"

record winner_info =
  w_player :: nat
  w_cells :: "(int \<times> int) list"

text \<open>
  The inner loop of \<^verbatim>\<open>checkWinner\<close> over \<open>k = 1, 2, 3\<close>: it stops at the first cell off the
  board or holding another value, and returns the cells collected so far.
\<close>

fun collectCells ::
  "board \<Rightarrow> int \<Rightarrow> int \<Rightarrow> int \<Rightarrow> int \<Rightarrow> nat \<Rightarrow> int list \<Rightarrow> (int \<times> int) list \<Rightarrow> (int \<times> int) list" where
  "collectCells b row col dr dc player [] cells = cells"
| "collectCells b row col dr dc player (k # ks) cells =
     (let r = row + dr * k; c = col + dc * k in
      if r < 0 \<or> r \<ge> ROWS \<or> c < 0 \<or> c \<ge> COLS then cells
      else if cell b r c \<noteq> Some player then cells
      else collectCells b row col dr dc player ks (cells @ [(r, c)]))"

fun checkWinner_dirs :: "board \<Rightarrow> int \<Rightarrow> int \<Rightarrow> nat \<Rightarrow> (int \<times> int) list \<Rightarrow> winner_info option" where
  "checkWinner_dirs b row col player [] = None"
| "checkWinner_dirs b row col player ((dr, dc) # ds) =
     (let cells = collectCells b row col dr dc player [1, 2, 3] [(row, col)] in
      if length cells = 4 then Some \<lparr>w_player = player, w_cells = cells\<rparr>
      else checkWinner_dirs b row col player ds)"

text \<open>
  The two outer loops of \<^verbatim>\<open>checkWinner\<close>, over the cells in row-major order.  A cell that
  holds 0 is skipped (\<^verbatim>\<open>continue\<close>); so is a cell that does not exist, which a 6x7 board
  does not have.
\<close>

fun checkWinner_cells :: "board \<Rightarrow> (int \<times> int) list \<Rightarrow> winner_info option" where
  "checkWinner_cells b [] = None"
| "checkWinner_cells b ((row, col) # ps) =
     (case cell b row col of
        None \<Rightarrow> checkWinner_cells b ps
      | Some player \<Rightarrow>
          if player = 0 then checkWinner_cells b ps
          else (case checkWinner_dirs b row col player directions of
                  Some w \<Rightarrow> Some w
                | None \<Rightarrow> checkWinner_cells b ps))"

definition checkWinner :: "board \<Rightarrow> winner_info option" where
  "checkWinner b = checkWinner_cells b (List.product [0..ROWS - 1] [0..COLS - 1])"

definition isBoardFull :: "board \<Rightarrow> bool" where
  "isBoardFull b = list_all (\<lambda>row. list_all (\<lambda>x. x \<noteq> 0) row) b"

datatype difficulty = Easy | Medium | Hard

definition getValidColumns :: "board \<Rightarrow> int list" where
  "getValidColumns b = filter (\<lambda>col. getAvailableRow b col \<noteq> - 1) [0..COLS - 1]"

text \<open>The client's \<^verbatim>\<open>applyMove(board, col, player)\<close>: a new board, or \<^verbatim>\<open>null\<close>.\<close>

definition applyMove_client :: "board \<Rightarrow> int \<Rightarrow> nat \<Rightarrow> board option" where
  "applyMove_client b col player =
     (let row = getAvailableRow b col in
      if row < 0 then None else Some (setCell b row col player))"

text \<open>
  \<^verbatim>\<open>pickRandom\<close>: \<open>i\<close> stands for \<^verbatim>\<open>Math.floor(Math.random() * choices.length)\<close>, the
  one source of indeterminacy, passed in.
\<close>

definition pickRandom :: "nat \<Rightarrow> int list \<Rightarrow> int option" where
  "pickRandom i choices = (if i < length choices then Some (choices ! i) else None)"

definition winnerIs :: "winner_info option \<Rightarrow> nat \<Rightarrow> bool" where
  "winnerIs w player = (case w of None \<Rightarrow> False | Some x \<Rightarrow> w_player x = player)"

fun findWinningMove_loop :: "board \<Rightarrow> nat \<Rightarrow> int list \<Rightarrow> int option" where
  "findWinningMove_loop b player [] = None"
| "findWinningMove_loop b player (col # cols) =
     (case applyMove_client b col player of
        None \<Rightarrow> findWinningMove_loop b player cols
      | Some nextBoard \<Rightarrow>
          if winnerIs (checkWinner nextBoard) player then Some col
          else findWinningMove_loop b player cols)"

definition findWinningMove :: "board \<Rightarrow> nat \<Rightarrow> int option" where
  "findWinningMove b player = findWinningMove_loop b player (getValidColumns b)"

definition opponentOf :: "nat \<Rightarrow> nat" where
  "opponentOf player = (if player = 1 then 2 else 1)"

text \<open>
  \<^verbatim>\<open>evaluateWindow\<close> adds to the running \<^verbatim>\<open>score\<close>; the model takes the score and returns
  the new one.  A window is the four values read from the board.
\<close>

definition evaluateWindow :: "nat \<Rightarrow> nat option list \<Rightarrow> int \<Rightarrow> int" where
  "evaluateWindow player window score =
     (let playerCount = length (filter (\<lambda>x. x = Some player) window);
          oppCount = length (filter (\<lambda>x. x = Some (opponentOf player)) window);
          emptyCount = length (filter (\<lambda>x. x = Some 0) window);
          score1 = (if playerCount = 4 then score + 100
                    else if playerCount = 3 \<and> emptyCount = 1 then score + 5
                    else if playerCount = 2 \<and> emptyCount = 2 then score + 2
                    else score)
      in if oppCount = 3 \<and> emptyCount = 1 then score1 - 4 else score1)"

definition scorePosition :: "board \<Rightarrow> nat \<Rightarrow> int" where
  "scorePosition b player =
     (let centerCol = COLS div 2;
          centerCount = length (filter (\<lambda>row. cell b row centerCol = Some player) [0..ROWS - 1]);
          score0 = int centerCount * 3;
          score1 = fold (\<lambda>(row, col) score. evaluateWindow player
                      [cell b row col, cell b row (col + 1), cell b row (col + 2), cell b row (col + 3)] score)
                    (List.product [0..ROWS - 1] [0..COLS - 4]) score0;
          score2 = fold (\<lambda>(col, row) score. evaluateWindow player
                      [cell b row col, cell b (row + 1) col, cell b (row + 2) col, cell b (row + 3) col] score)
                    (List.product [0..COLS - 1] [0..ROWS - 4]) score1;
          score3 = fold (\<lambda>(row, col) score. evaluateWindow player
                      [cell b row col, cell b (row + 1) (col + 1), cell b (row + 2) (col + 2),
                       cell b (row + 3) (col + 3)] score)
                    (List.product [0..ROWS - 4] [0..COLS - 4]) score2;
          score4 = fold (\<lambda>(row, col) score. evaluateWindow player
                      [cell b row col, cell b (row - 1) (col + 1), cell b (row - 2) (col + 2),
                       cell b (row - 3) (col + 3)] score)
                    (List.product [3..ROWS - 1] [0..COLS - 4]) score3
      in score4)"

text \<open>
  Scores are JavaScript numbers: integers, and the two infinities that \<^verbatim>\<open>bestScore\<close>,
  \<^verbatim>\<open>alpha\<close> and \<^verbatim>\<open>beta\<close> start from.
\<close>

datatype score = NegInf | Fin int | PosInf

text \<open>The order of these numbers, so that \<open><\<close>, \<open>\<ge>\<close>, \<open>max\<close> and \<open>min\<close> read as in the source.\<close>

instantiation score :: linorder
begin

fun less_eq_score :: "score \<Rightarrow> score \<Rightarrow> bool" where
  "less_eq_score NegInf y = True"
| "less_eq_score (Fin x) NegInf = False"
| "less_eq_score (Fin x) (Fin y) = (x \<le> y)"
| "less_eq_score (Fin x) PosInf = True"
| "less_eq_score PosInf PosInf = True"
| "less_eq_score PosInf y = False"

definition less_score :: "score \<Rightarrow> score \<Rightarrow> bool" where
  "less_score x y = (x \<le> y \<and> \<not> y \<le> x)"

instance
proof
  fix x y z :: score
  show "(x < y) = (x \<le> y \<and> \<not> y \<le> x)" by (simp add: less_score_def)
  show "x \<le> x" by (cases x) simp_all
  show "x \<le> y \<Longrightarrow> y \<le> z \<Longrightarrow> x \<le> z" by (cases x; cases y; cases z) simp_all
  show "x \<le> y \<Longrightarrow> y \<le> x \<Longrightarrow> x = y" by (cases x; cases y) simp_all
  show "x \<le> y \<or> y \<le> x" by (cases x; cases y) auto
qed

end

text \<open>
  The loop of a maximizing node over the valid columns.  \<open>child\<close> is the recursive call on
  the next board, with the \<^verbatim>\<open>alpha\<close> and \<^verbatim>\<open>beta\<close> of the moment; \<^verbatim>\<open>break\<close> returns the
  best found so far.
\<close>

fun maximizing_loop ::
  "(board \<Rightarrow> score \<Rightarrow> score \<Rightarrow> score \<times> int option) \<Rightarrow> board \<Rightarrow> nat \<Rightarrow> score \<Rightarrow> score \<Rightarrow>
   int list \<Rightarrow> score \<Rightarrow> int option \<Rightarrow> score \<times> int option" where
  "maximizing_loop child b player alpha beta [] bestScore bestCol = (bestScore, bestCol)"
| "maximizing_loop child b player alpha beta (col # cols) bestScore bestCol =
     (case applyMove_client b col player of
        None \<Rightarrow> maximizing_loop child b player alpha beta cols bestScore bestCol
      | Some nextBoard \<Rightarrow>
         (let result = child nextBoard alpha beta;
              better = (fst result > bestScore);
              bestScore' = (if better then fst result else bestScore);
              bestCol' = (if better then Some col else bestCol);
              alpha' = max alpha bestScore'
          in if alpha' \<ge> beta then (bestScore', bestCol')
             else maximizing_loop child b player alpha' beta cols bestScore' bestCol'))"

text \<open>The loop of a minimizing node: the opponent moves, \<^verbatim>\<open>beta\<close> comes down.\<close>

fun minimizing_loop ::
  "(board \<Rightarrow> score \<Rightarrow> score \<Rightarrow> score \<times> int option) \<Rightarrow> board \<Rightarrow> nat \<Rightarrow> score \<Rightarrow> score \<Rightarrow>
   int list \<Rightarrow> score \<Rightarrow> int option \<Rightarrow> score \<times> int option" where
  "minimizing_loop child b opponent alpha beta [] bestScore bestCol = (bestScore, bestCol)"
| "minimizing_loop child b opponent alpha beta (col # cols) bestScore bestCol =
     (case applyMove_client b col opponent of
        None \<Rightarrow> minimizing_loop child b opponent alpha beta cols bestScore bestCol
      | Some nextBoard \<Rightarrow>
         (let result = child nextBoard alpha beta;
              better = (fst result < bestScore);
              bestScore' = (if better then fst result else bestScore);
              bestCol' = (if better then Some col else bestCol);
              beta' = min beta bestScore'
          in if alpha \<ge> beta' then (bestScore', bestCol')
             else minimizing_loop child b opponent alpha beta' cols bestScore' bestCol'))"

text \<open>
  \<^verbatim>\<open>minimax(board, depth, alpha, beta, maximizing, player)\<close>; the depth is a count of plies
  (4 at the only call), so the recursion on \<open>depth - 1\<close> ends.
\<close>

fun minimax :: "board \<Rightarrow> nat \<Rightarrow> score \<Rightarrow> score \<Rightarrow> bool \<Rightarrow> nat \<Rightarrow> score \<times> int option" where
  "minimax b depth alpha beta maximizing player =
     (let opponent = opponentOf player;
          w = checkWinner b;
          valid = getValidColumns b
      in if winnerIs w player then (Fin (100000 + int depth), None)
         else if winnerIs w opponent then (Fin (- 100000 - int depth), None)
         else if depth = 0 \<or> valid = [] then (Fin (scorePosition b player), None)
         else if maximizing
           then maximizing_loop (\<lambda>nextBoard a be. minimax nextBoard (depth - 1) a be False player)
                  b player alpha beta valid NegInf None
           else minimizing_loop (\<lambda>nextBoard a be. minimax nextBoard (depth - 1) a be True player)
                  b opponent alpha beta valid PosInf None)"

declare minimax.simps [simp del]

definition chooseComputerMove :: "board \<Rightarrow> difficulty \<Rightarrow> nat \<Rightarrow> nat \<Rightarrow> int option" where
  "chooseComputerMove b level computerPlayer rnd =
     (let valid = getValidColumns b in
      if valid = [] then None
      else if level = Easy then pickRandom rnd valid
      else case findWinningMove b computerPlayer of
             Some winningMove \<Rightarrow> Some winningMove
           | None \<Rightarrow>
              if level = Medium
              then (case findWinningMove b (opponentOf computerPlayer) of
                      Some blockMove \<Rightarrow> Some blockMove
                    | None \<Rightarrow> pickRandom rnd valid)
              else (case findWinningMove b (opponentOf computerPlayer) of
                      Some blockMove \<Rightarrow> Some blockMove
                    | None \<Rightarrow>
                       (case snd (minimax b 4 NegInf PosInf True computerPlayer) of
                          Some col \<Rightarrow> Some col
                        | None \<Rightarrow> pickRandom rnd valid)))"

section \<open>Rooms and the join handler (server/src/index.ts)\<close>

text \<open>
  A \<^verbatim>\<open>Client\<close> object belongs to one connection; a room's \<^verbatim>\<open>clients\<close> set holds references
  to such objects, so the objects live in a store keyed by the connection's id and a room
  holds ids, in insertion order.  The \<^verbatim>\<open>rooms\<close> map is a list of entries in insertion
  order, with distinct keys.  \<^verbatim>\<open>Date.now()\<close> is passed in, in milliseconds.
\<close>

record client =
  c_id :: string
  c_roomCode :: "string option"
  c_playerId :: "player_id option"

record room =
  r_code :: string
  r_clients :: "string list"
  r_state :: game_state
  createdAt :: int
  lastActiveAt :: int

record server =
  rooms :: "(string \<times> room) list"
  conns :: "(string \<times> client) list"

datatype error_code =
  ROOM_NOT_FOUND | ALREADY_IN_ROOM | ROOM_FULL | NOT_IN_ROOM | INVALID_MOVE | INVALID_MESSAGE

datatype server_message =
  Room_created string player_id
| Room_joined string player_id game_state
| State_update string game_state
| Error_reply "string option" error_code string

definition createRoom :: "string \<Rightarrow> int \<Rightarrow> room" where
  "createRoom code now =
     \<lparr>r_code = code, r_clients = [],
      r_state = \<lparr>roomCode = code, status = Waiting, board = emptyBoard, nextTurn = P1,
                 winner = None, lastMove = None, connectedP1 = False, connectedP2 = False\<rparr>,
      createdAt = now, lastActiveAt = now\<rparr>"

text \<open>The player ids held by the clients of a room, in the order of the set.\<close>

definition takenIds :: "server \<Rightarrow> room \<Rightarrow> player_id list" where
  "takenIds sv rm =
     List.map_filter (\<lambda>cid. case map_of (conns sv) cid of None \<Rightarrow> None | Some c \<Rightarrow> c_playerId c)
       (r_clients rm)"

definition updatePresence :: "server \<Rightarrow> room \<Rightarrow> room" where
  "updatePresence sv rm =
     (let p1 = (P1 \<in> set (takenIds sv rm));
          p2 = (P2 \<in> set (takenIds sv rm));
          st = (r_state rm)\<lparr>connectedP1 := p1, connectedP2 := p2\<rparr>
      in if p1 \<and> p2 \<and> status st = Waiting
         then rm\<lparr>r_state := st\<lparr>status := Playing, nextTurn := P1\<rparr>\<rparr>
         else rm\<lparr>r_state := st\<rparr>)"

definition pickPlayerId :: "server \<Rightarrow> room \<Rightarrow> player_id option" where
  "pickPlayerId sv rm =
     (if P1 \<notin> set (takenIds sv rm) then Some P1
      else if P2 \<notin> set (takenIds sv rm) then Some P2
      else None)"

text \<open>\<^verbatim>\<open>broadcast\<close>: the message goes to every client of the room, in the order of the set.\<close>

definition broadcast :: "room \<Rightarrow> server_message \<Rightarrow> (string \<times> server_message) list" where
  "broadcast rm msg = map (\<lambda>cid. (cid, msg)) (r_clients rm)"

text \<open>\<^verbatim>\<open>if (client.roomCode)\<close>: a room code that is set and not the empty string.\<close>

definition inRoom :: "client \<Rightarrow> bool" where
  "inRoom c = (case c_roomCode c of None \<Rightarrow> False | Some code \<Rightarrow> code \<noteq> [])"

text \<open>
  The \<^verbatim>\<open>join_room\<close> branch of the message handler of the connection \<open>cid\<close>: the state of
  the server after it, and the messages sent, each with the connection it goes to, in the
  order they are sent.  A handler runs only for a connection that exists.
\<close>

definition join_room ::
  "server \<Rightarrow> string \<Rightarrow> string \<Rightarrow> int \<Rightarrow> server \<times> (string \<times> server_message) list" where
  "join_room sv cid code now =
     (case map_of (conns sv) cid of
        None \<Rightarrow> (sv, [])
      | Some c \<Rightarrow>
         (case map_of (rooms sv) code of
            None \<Rightarrow> (sv, [(cid, Error_reply (Some code) ROOM_NOT_FOUND ''Room not found'')])
          | Some rm \<Rightarrow>
             if inRoom c
             then (sv, [(cid, Error_reply (Some code) ALREADY_IN_ROOM ''Already in a room'')])
             else
               (case pickPlayerId sv rm of
                  None \<Rightarrow> (sv, [(cid, Error_reply (Some code) ROOM_FULL ''Room is full'')])
                | Some slot \<Rightarrow>
                   (let c' = c\<lparr>c_roomCode := Some code, c_playerId := Some slot\<rparr>;
                        sv1 = sv\<lparr>conns := AList.update cid c' (conns sv)\<rparr>;
                        rm1 = rm\<lparr>r_clients := (if cid \<in> set (r_clients rm) then r_clients rm
                                                 else r_clients rm @ [cid]),
                                 lastActiveAt := now\<rparr>;
                        rm2 = updatePresence sv1 rm1;
                        sv2 = sv1\<lparr>rooms := AList.update code rm2 (rooms sv1)\<rparr>
                    in (sv2, (cid, Room_joined code slot (r_state rm2))
                             # broadcast rm2 (State_update code (r_state rm2)))))))"

text \<open>
  The sweep: \<^verbatim>\<open>for (const [code, room] of rooms)\<close>, with \<^verbatim>\<open>continue\<close> for a room that has
  clients and \<^verbatim>\<open>rooms.delete(code)\<close> for an idle one.  The first list is what is left to
  visit, the second the map.
\<close>

definition ROOM_TTL_MS :: int where
  "ROOM_TTL_MS = 10 * 60 * 1000"

fun sweep_loop :: "int \<Rightarrow> (string \<times> room) list \<Rightarrow> (string \<times> room) list \<Rightarrow> (string \<times> room) list" where
  "sweep_loop now [] rs = rs"
| "sweep_loop now ((code, rm) # rest) rs =
     (if length (r_clients rm) > 0 then sweep_loop now rest rs
      else if now - lastActiveAt rm > ROOM_TTL_MS then sweep_loop now rest (AList.delete code rs)
      else sweep_loop now rest rs)"

definition sweep :: "int \<Rightarrow> server \<Rightarrow> server" where
  "sweep now sv = sv\<lparr>rooms := sweep_loop now (rooms sv) (rooms sv)\<rparr>"

section \<open>Predicates of the specification\<close>

text \<open>The condition of \<^verbatim>\<open>countDir\<close>'s loop at the cell \<open>(r, c)\<close>.\<close>

definition countDir_cond :: "board \<Rightarrow> nat option \<Rightarrow> int \<Rightarrow> int \<Rightarrow> bool" where
  "countDir_cond b val r c =
     (0 \<le> r \<and> r < int (length b) \<and> 0 \<le> c \<and> c < int (length (b ! 0)) \<and> cell b r c = val)"

text \<open>
  A run of four through \<open>(row, col)\<close> along \<open>(dr, dc)\<close>, as the loop sees it: for
  some position \<open>j\<close> of the anchor within the run, the other three cells pass the loop's test.
\<close>

definition runThrough :: "board \<Rightarrow> nat option \<Rightarrow> int \<Rightarrow> int \<Rightarrow> int \<Rightarrow> int \<Rightarrow> bool" where
  "runThrough b val row col dr dc =
     (\<exists>j\<in>{0..3}. \<forall>k\<in>{0..3}. k \<noteq> j \<longrightarrow> countDir_cond b val (row + (k - j) * dr) (col + (k - j) * dc))"

text \<open>Four cells from \<open>(r, c)\<close> in steps of \<open>(dr, dc)\<close>, all on the board and all holding \<open>v\<close>.\<close>

definition line4 :: "board \<Rightarrow> nat \<Rightarrow> int \<Rightarrow> int \<Rightarrow> int \<Rightarrow> int \<Rightarrow> bool" where
  "line4 b v r c dr dc = (\<forall>k\<in>set [0..3]. cell b (r + k * dr) (c + k * dc) = Some v)"

text \<open>
  The placement at \<open>(row, col)\<close> completes a run of four: the cell holds a mark, and some line
  of four equal marks along one of the four axes passes through it.
\<close>

definition fourThrough :: "board \<Rightarrow> int \<Rightarrow> int \<Rightarrow> bool" where
  "fourThrough b row col =
     (case cell b row col of
        None \<Rightarrow> False
      | Some v \<Rightarrow> v \<noteq> 0 \<and>
          (\<exists>(dr, dc)\<in>set directions. \<exists>j\<in>set [0..3]. line4 b v (row - j * dr) (col - j * dc) dr dc))"

text \<open>The column has an empty cell; the lowest empty cell of a column; the top row has none.\<close>

definition columnHasEmpty :: "board \<Rightarrow> int \<Rightarrow> bool" where
  "columnHasEmpty b col = (\<exists>r\<in>set [0..int (length b) - 1]. cell b r col = Some 0)"

definition lowestEmptyRow :: "board \<Rightarrow> int \<Rightarrow> int \<Rightarrow> bool" where
  "lowestEmptyRow b col row =
     (cell b row col = Some 0 \<and> (\<forall>r\<in>set [row + 1..int (length b) - 1]. cell b r col \<noteq> Some 0))"

definition topRowFull :: "board \<Rightarrow> bool" where
  "topRowFull b = (\<forall>c\<in>set [0..int (length (b ! 0)) - 1]. cell b 0 c \<noteq> Some 0)"

text \<open>Somewhere on the board, four cells in a line along one of the four axes hold the mark \<open>v\<close>.\<close>

definition hasLine :: "board \<Rightarrow> nat \<Rightarrow> bool" where
  "hasLine b v =
     (\<exists>r\<in>set [0..5]. \<exists>c\<in>set [0..6]. \<exists>(dr, dc)\<in>set directions. line4 b v r c dr dc)"

text \<open>Every cell holds 0, 1 or 2 (\<^verbatim>\<open>Cell = 0 | 1 | 2\<close>).\<close>

definition validCells :: "board \<Rightarrow> bool" where
  "validCells b = list_all (list_all (\<lambda>x. x \<le> 2)) b"

text \<open>
  Dropping \<open>player\<close>'s mark into column \<open>col\<close> is possible and leaves four of that player's
  marks in a line.
\<close>

definition immediateWin :: "board \<Rightarrow> int \<Rightarrow> nat \<Rightarrow> bool" where
  "immediateWin b col player =
     (case applyMove_client b col player of None \<Rightarrow> False | Some nextBoard \<Rightarrow> hasLine nextBoard player)"

text \<open>
  The gravity invariant.  A cell is occupied when it holds a mark; no cell below an occupied
  cell of the same column is empty; a column is full (has no empty cell) exactly when its top
  cell is occupied.
\<close>

definition occupied :: "board \<Rightarrow> int \<Rightarrow> int \<Rightarrow> bool" where
  "occupied b r c = (case cell b r c of None \<Rightarrow> False | Some v \<Rightarrow> v \<noteq> 0)"

definition gravity :: "board \<Rightarrow> bool" where
  "gravity b = (\<forall>c\<in>set [0..6]. \<forall>r\<in>set [0..5]. occupied b r c \<longrightarrow> (\<forall>r'\<in>set [r + 1..5]. occupied b r' c))"

definition fullIffTop :: "board \<Rightarrow> bool" where
  "fullIffTop b = (\<forall>c\<in>set [0..6]. (\<not> columnHasEmpty b c) = occupied b 0 c)"

text \<open>The number of non-empty cells of the board, and of one column.\<close>

definition countMarks :: "board \<Rightarrow> nat" where
  "countMarks b = sum_list (map (\<lambda>row. length (filter (\<lambda>x. x \<noteq> 0) row)) b)"

definition columnMarks :: "board \<Rightarrow> int \<Rightarrow> nat" where
  "columnMarks b col = length (filter (\<lambda>r. occupied b r col) [0..int (length b) - 1])"

text \<open>
  \<open>reachable b n\<close>: the board \<open>b\<close> comes from the empty board by \<open>n\<close> successful moves, each
  one a call of the server's \<^verbatim>\<open>applyMove\<close> that returns a row, or a call of the client's
  \<^verbatim>\<open>applyMove\<close> by player 1 or 2 that returns a board.
\<close>

inductive reachable :: "board \<Rightarrow> nat \<Rightarrow> bool" where
  reach_empty: "reachable emptyBoard 0"
| reach_server: "reachable (board st) n \<Longrightarrow> applyMove st byPlayer col = Some (Inr row, st') \<Longrightarrow>
     reachable (board st') (Suc n)"
| reach_client: "reachable b n \<Longrightarrow> player = 1 \<or> player = 2 \<Longrightarrow> applyMove_client b col player = Some b' \<Longrightarrow>
     reachable b' (Suc n)"

text \<open>
  The heuristic as the specification words it.  The four axes (horizontal, vertical and the
  two diagonals); a window is four consecutive cells along an axis, all on the board, named
  by its first cell and its step; the value of a window; and the sum over all windows plus 3
  for each of the player's marks in the center column, column 3.
\<close>

definition axes :: "(int \<times> int) list" where
  "axes = [(0, 1), (1, 0), (1, 1), (- 1, 1)]"

definition onBoard :: "int \<Rightarrow> int \<Rightarrow> bool" where
  "onBoard r c = (0 \<le> r \<and> r < ROWS \<and> 0 \<le> c \<and> c < COLS)"

definition allWindows :: "(int \<times> int \<times> int \<times> int) list" where
  "allWindows =
     concat (map (\<lambda>(dr, dc).
       concat (map (\<lambda>r.
         map (\<lambda>c. (r, c, dr, dc))
           (filter (\<lambda>c. onBoard (r + 3 * dr) (c + 3 * dc)) [0..COLS - 1]))
         [0..ROWS - 1]))
       axes)"

fun windowCells :: "board \<Rightarrow> int \<times> int \<times> int \<times> int \<Rightarrow> nat option list" where
  "windowCells b (r, c, dr, dc) = map (\<lambda>k. cell b (r + k * dr) (c + k * dc)) [0..3]"

definition windowValue :: "nat \<Rightarrow> nat option list \<Rightarrow> int" where
  "windowValue player window =
     (let mine = length (filter (\<lambda>x. x = Some player) window);
          theirs = length (filter (\<lambda>x. x = Some (opponentOf player)) window);
          empty = length (filter (\<lambda>x. x = Some 0) window)
      in (if mine = 4 then 100
          else if mine = 3 \<and> empty = 1 then 5
          else if mine = 2 \<and> empty = 2 then 2
          else 0)
         + (if theirs = 3 \<and> empty = 1 then - 4 else 0))"

definition heuristic_spec :: "board \<Rightarrow> nat \<Rightarrow> int" where
  "heuristic_spec b player =
     sum_list (map (\<lambda>w. windowValue player (windowCells b w)) allWindows)
     + 3 * int (length (filter (\<lambda>r. cell b r 3 = Some player) [0..ROWS - 1]))"

text \<open>The windows in the order in which the four loops of \<^verbatim>\<open>scorePosition\<close> visit them.\<close>

definition sourceWindows :: "(int \<times> int \<times> int \<times> int) list" where
  "sourceWindows =
     map (\<lambda>(row, col). (row, col, 0, 1)) (List.product [0..ROWS - 1] [0..COLS - 4]) @
     map (\<lambda>(col, row). (row, col, 1, 0)) (List.product [0..COLS - 1] [0..ROWS - 4]) @
     map (\<lambda>(row, col). (row, col, 1, 1)) (List.product [0..ROWS - 4] [0..COLS - 4]) @
     map (\<lambda>(row, col). (row, col, - 1, 1)) (List.product [3..ROWS - 1] [0..COLS - 4])"

text \<open>A room the sweep removes: no client attached, and last active longer ago than the TTL.\<close>

definition idle :: "int \<Rightarrow> room \<Rightarrow> bool" where
  "idle now rm = (r_clients rm = [] \<and> now - lastActiveAt rm > ROOM_TTL_MS)"

section \<open>Example positions\<close>

definition exState :: "board \<Rightarrow> game_status \<Rightarrow> player_id \<Rightarrow> game_state" where
  "exState b s p = \<lparr>roomCode = ''ABCDEF'', status = s, board = b, nextTurn = p, winner = None,
     lastMove = None, connectedP1 = True, connectedP2 = True\<rparr>"

definition exThree :: board where
  "exThree = [[0,0,0,0,0,0,0],[0,0,0,0,0,0,0],[0,0,0,0,0,0,0],[0,0,0,0,0,0,0],[2,2,0,0,0,0,0],[1,1,1,0,0,2,0]]"

definition exAlmostFull :: board where
  "exAlmostFull = [[0,2,1,2,1,2,1],[1,2,1,2,1,2,1],[2,1,2,1,2,1,2],[2,1,2,1,2,1,2],[1,2,1,2,1,2,1],[1,2,1,2,1,2,1]]"

definition exFull :: board where
  "exFull = [[1,2,1,2,1,2,1],[1,2,1,2,1,2,1],[2,1,2,1,2,1,2],[2,1,2,1,2,1,2],[1,2,1,2,1,2,1],[1,2,1,2,1,2,1]]"

definition exOneMove :: board where
  "exOneMove = [[0,0,0,0,0,0,0],[0,0,0,0,0,0,0],[0,0,0,0,0,0,0],[0,0,0,0,0,0,0],[0,0,0,0,0,0,0],[0,0,0,1,0,0,0]]"

definition exTwoMoves :: board where
  "exTwoMoves = [[0,0,0,0,0,0,0],[0,0,0,0,0,0,0],[0,0,0,0,0,0,0],[0,0,0,0,0,0,0],[0,0,0,2,0,0,0],[0,0,0,1,0,0,0]]"

text \<open>Player 2 has three in column 5 above a mark of player 1; player 1 has no three.\<close>

definition exThreeOfTwo :: board where
  "exThreeOfTwo = [[0,0,0,0,0,0,0],[0,0,0,0,0,0,0],[0,0,0,0,0,2,0],[0,0,0,0,0,2,0],[1,0,0,0,0,2,0],[1,1,0,0,0,1,0]]"

definition exWon :: board where
  "exWon = [[0,0,0,0,0,0,0],[0,0,0,0,0,0,0],[0,0,0,0,0,0,0],[0,0,0,0,0,0,0],[2,2,0,0,0,0,0],[1,1,1,1,0,2,0]]"

text \<open>
  A registry with four rooms: one with player P1 attached, one with both players attached,
  and two without clients, created at times 0 and 500000.
\<close>

definition exRooms :: server where
  "exRooms =
     \<lparr>rooms = [(''AAAA'', (createRoom ''AAAA'' 0)\<lparr>r_clients := [''c1'']\<rparr>),
               (''BBBB'', (createRoom ''BBBB'' 0)\<lparr>r_clients := [''c4'', ''c5'']\<rparr>),
               (''CCCC'', createRoom ''CCCC'' 0),
               (''DDDD'', createRoom ''DDDD'' 500000)],
      conns = [(''c1'', \<lparr>c_id = ''c1'', c_roomCode = Some ''AAAA'', c_playerId = Some P1\<rparr>),
               (''c2'', \<lparr>c_id = ''c2'', c_roomCode = None, c_playerId = None\<rparr>),
               (''c4'', \<lparr>c_id = ''c4'', c_roomCode = Some ''BBBB'', c_playerId = Some P1\<rparr>),
               (''c5'', \<lparr>c_id = ''c5'', c_roomCode = Some ''BBBB'', c_playerId = Some P2\<rparr>)]\<rparr>"

section \<open>The anchored win check\<close>

lemma countDir_loop_unfold:
  "countDir_loop b r c dr dc val n =
     (if countDir_cond b val r c then countDir_loop b (r + dr) (c + dc) dr dc val (n + 1) else Some n)"
  by (subst countDir_loop.simps) (simp add: countDir_cond_def)

lemma countDir_loop_run:
  "(\<forall>k<m. countDir_cond b val (r + int k * dr) (c + int k * dc)) \<Longrightarrow>
   \<not> countDir_cond b val (r + int m * dr) (c + int m * dc) \<Longrightarrow>
   countDir_loop b r c dr dc val n = Some (n + m)"
proof (induction m arbitrary: r c n)
  case 0
  then show ?case by (subst countDir_loop_unfold) simp
next
  case (Suc m)
  have ok0: "countDir_cond b val r c" using Suc.prems(1)[rule_format, of 0] by simp
  have step: "countDir_loop b (r + dr) (c + dc) dr dc val (n + 1) = Some (n + 1 + m)"
  proof (rule Suc.IH)
    show "\<forall>k<m. countDir_cond b val (r + dr + int k * dr) (c + dc + int k * dc)"
    proof (intro allI impI)
      fix k assume "k < m"
      then have "countDir_cond b val (r + int (Suc k) * dr) (c + int (Suc k) * dc)"
        using Suc.prems(1)[rule_format, of "Suc k"] by simp
      then show "countDir_cond b val (r + dr + int k * dr) (c + dc + int k * dc)"
        by (simp add: algebra_simps)
    qed
    show "\<not> countDir_cond b val (r + dr + int m * dr) (c + dc + int m * dc)"
      using Suc.prems(2) by (simp add: algebra_simps)
  qed
  show ?case using ok0 step by (subst countDir_loop_unfold) simp
qed

lemma countDir_cond_leaves:
  assumes "dr \<noteq> 0 \<or> dc \<noteq> 0"
  shows "\<exists>m. \<not> countDir_cond b val (r + int m * dr) (c + int m * dc)"
proof -
  have A: "\<exists>m. \<not> (0 \<le> x + int m * d \<and> x + int m * d < int n)" if "d \<noteq> 0" for x d :: int and n :: nat
  proof (cases "0 < d")
    case True
    let ?m = "nat (int n - x)"
    have "int ?m \<le> int ?m * d" using True by (simp add: mult_le_cancel_left1)
    then have "\<not> x + int ?m * d < int n" by linarith
    then show ?thesis by blast
  next
    case False
    then have neg: "d < 0" using that by simp
    let ?m = "nat (x + 1)"
    have "int ?m * d \<le> int ?m * (- 1)" using neg by (intro mult_left_mono) auto
    then have "\<not> 0 \<le> x + int ?m * d" by linarith
    then show ?thesis by blast
  qed
  from assms show ?thesis
  proof
    assume "dr \<noteq> 0"
    from A[OF this, of r "length b"] show ?thesis by (auto simp: countDir_cond_def)
  next
    assume "dc \<noteq> 0"
    from A[OF this, of c "length (b ! 0)"] show ?thesis by (auto simp: countDir_cond_def)
  qed
qed


lemma countDir_loop_returns:
  assumes "dr \<noteq> 0 \<or> dc \<noteq> 0"
  shows "\<exists>m. countDir_loop b r c dr dc val n = Some (n + m)
           \<and> (\<forall>k<m. countDir_cond b val (r + int k * dr) (c + int k * dc))
           \<and> \<not> countDir_cond b val (r + int m * dr) (c + int m * dc)"
proof -
  let ?P = "\<lambda>m. \<not> countDir_cond b val (r + int m * dr) (c + int m * dc)"
  from countDir_cond_leaves[OF assms] have ex: "\<exists>m. ?P m" .
  define m where "m = (LEAST m. ?P m)"
  have stop: "?P m" unfolding m_def using ex by (rule LeastI_ex)
  have before: "\<forall>k<m. countDir_cond b val (r + int k * dr) (c + int k * dc)"
    unfolding m_def using not_less_Least by blast
  from countDir_loop_run[OF before stop] before stop show ?thesis by blast
qed

lemma countDir_returns:
  assumes "dr \<noteq> 0 \<or> dc \<noteq> 0"
  shows "\<exists>m. countDir b row col dr dc val = Some m
           \<and> (\<forall>k<m. countDir_cond b val (row + (int k + 1) * dr) (col + (int k + 1) * dc))
           \<and> \<not> countDir_cond b val (row + (int m + 1) * dr) (col + (int m + 1) * dc)"
proof -
  from countDir_loop_returns[OF assms, of b "row + dr" "col + dc" val 0]
  obtain m where m: "countDir_loop b (row + dr) (col + dc) dr dc val 0 = Some m"
     "\<forall>k<m. countDir_cond b val (row + dr + int k * dr) (col + dc + int k * dc)"
     "\<not> countDir_cond b val (row + dr + int m * dr) (col + dc + int m * dc)" by auto
  have e: "x + d + k * d = x + (k + 1) * d" for x d k :: int by (simp add: algebra_simps)
  from m show ?thesis unfolding countDir_def e by blast
qed

lemma run_count:
  fixes f :: "int \<Rightarrow> bool"
  assumes f1: "\<forall>k<m1. f (int k + 1)" and f2: "\<not> f (int m1 + 1)"
      and b1: "\<forall>k<m2. f (- (int k + 1))" and b2: "\<not> f (- (int m2 + 1))"
  shows "(4 \<le> 1 + m1 + m2) \<longleftrightarrow> (\<exists>j\<in>{0..3}. \<forall>k\<in>{0..3}. k \<noteq> j \<longrightarrow> f (k - j))"
proof
  assume big: "4 \<le> 1 + m1 + m2"
  define j :: int where "j = min (int m2) 3"
  have j: "0 \<le> j" "j \<le> 3" "j \<le> int m2" by (auto simp: j_def)
  have "f (k - j)" if k: "k \<in> {0..3}" "k \<noteq> j" for k
  proof (cases "k < j")
    case True
    define i where "i = nat (j - k - 1)"
    have "i < m2" using True j k by (simp add: i_def)
    with b1 have "f (- (int i + 1))" by blast
    moreover have "- (int i + 1) = k - j" using True by (simp add: i_def)
    ultimately show ?thesis by simp
  next
    case False
    with k have gt: "j < k" by simp
    define i where "i = nat (k - j - 1)"
    have "j = int m2" using gt k j by (auto simp: j_def min_def split: if_splits)
    then have "i < m1" using gt k big by (simp add: i_def)
    with f1 have "f (int i + 1)" by blast
    moreover have "int i + 1 = k - j" using gt by (simp add: i_def)
    ultimately show ?thesis by simp
  qed
  then have "\<forall>k\<in>{0..3}. k \<noteq> j \<longrightarrow> f (k - j)" by blast
  moreover have "j \<in> {0..3}" using j by simp
  ultimately show "\<exists>j\<in>{0..3}. \<forall>k\<in>{0..3}. k \<noteq> j \<longrightarrow> f (k - j)" by blast
next
  assume "\<exists>j\<in>{0..3}. \<forall>k\<in>{0..3}. k \<noteq> j \<longrightarrow> f (k - j)"
  then obtain j :: int where j: "0 \<le> j" "j \<le> 3" and all: "\<forall>k\<in>{0..3}. k \<noteq> j \<longrightarrow> f (k - j)" by auto
  have bk: "j \<le> int m2"
  proof (rule ccontr)
    assume "\<not> j \<le> int m2"
    then have lt: "int m2 < j" by simp
    let ?k = "j - (int m2 + 1)"
    have "?k \<in> {0..3}" "?k \<noteq> j" using lt j by auto
    with all have "f (?k - j)" by blast
    then show False using b2 by simp
  qed
  have forw: "3 - j \<le> int m1"
  proof (rule ccontr)
    assume "\<not> 3 - j \<le> int m1"
    then have lt: "int m1 < 3 - j" by simp
    let ?k = "j + (int m1 + 1)"
    have "?k \<in> {0..3}" "?k \<noteq> j" using lt j by auto
    with all have "f (?k - j)" by blast
    then show False using f2 by simp
  qed
  from bk forw show "4 \<le> 1 + m1 + m2" by linarith
qed


lemma checkWin_dirs_eq:
  "\<forall>(dr, dc)\<in>set ds. dr \<noteq> 0 \<or> dc \<noteq> 0 \<Longrightarrow>
   checkWin_dirs b row col val ds = Some (\<exists>(dr, dc)\<in>set ds. runThrough b val row col dr dc)"
proof (induction ds)
  case Nil
  then show ?case by simp
next
  case (Cons d ds)
  obtain dr dc where d: "d = (dr, dc)" by (cases d)
  from Cons.prems d have nz: "dr \<noteq> 0 \<or> dc \<noteq> 0" and rest: "\<forall>(dr, dc)\<in>set ds. dr \<noteq> 0 \<or> dc \<noteq> 0"
    by auto
  from nz have nz': "- dr \<noteq> 0 \<or> - dc \<noteq> 0" by simp
  let ?f = "\<lambda>i. countDir_cond b val (row + i * dr) (col + i * dc)"
  from countDir_returns[OF nz, of b row col val] obtain m1 where
    m1: "countDir b row col dr dc val = Some m1" "\<forall>k<m1. ?f (int k + 1)" "\<not> ?f (int m1 + 1)"
    by blast
  from countDir_returns[OF nz', of b row col val] obtain m2 where
    m2: "countDir b row col (- dr) (- dc) val = Some m2" "\<forall>k<m2. ?f (- (int k + 1))"
      "\<not> ?f (- (int m2 + 1))"
    by (auto simp: algebra_simps)
  have "(4 \<le> 1 + m1 + m2) \<longleftrightarrow> (\<exists>j\<in>{0..3}. \<forall>k\<in>{0..3}. k \<noteq> j \<longrightarrow> ?f (k - j))"
    using m1(2,3) m2(2,3) by (rule run_count)
  then have cnt: "(4 \<le> 1 + m1 + m2) \<longleftrightarrow> runThrough b val row col dr dc"
    by (simp add: runThrough_def)
  show ?case using Cons.IH[OF rest] m1(1) m2(1) cnt by (auto simp: d)
qed

lemma directions_nonzero: "\<forall>(dr, dc)\<in>set directions. dr \<noteq> 0 \<or> dc \<noteq> 0"
  by (simp add: directions_def)

lemma checkWin_eq:
  assumes "0 \<le> row" "row < int (length b)"
  shows "checkWin b row col =
     Some (cell b row col \<noteq> Some 0 \<and>
           (\<exists>(dr, dc)\<in>set directions. runThrough b (cell b row col) row col dr dc))"
  using assms by (simp add: checkWin_def Let_def checkWin_dirs_eq[OF directions_nonzero])

lemma wf_board_row: "wf_board b \<Longrightarrow> i < 6 \<Longrightarrow> length (b ! i) = 7"
  by (simp add: wf_board_def list_all_length)

lemma cell_Some_range:
  "cell b r c = Some v \<Longrightarrow> 0 \<le> r \<and> r < int (length b) \<and> 0 \<le> c \<and> c < int (length (b ! nat r))"
  by (simp add: cell_def split: if_splits)

lemma wf_cell_range: "wf_board b \<Longrightarrow> cell b r c = Some v \<Longrightarrow> 0 \<le> r \<and> r < 6 \<and> 0 \<le> c \<and> c < 7"
  using wf_board_row[of b "nat r"] by (auto simp: cell_def wf_board_def split: if_splits)

lemma wf_cell_in: "wf_board b \<Longrightarrow> 0 \<le> r \<Longrightarrow> r < 6 \<Longrightarrow> 0 \<le> c \<Longrightarrow> c < 7 \<Longrightarrow> \<exists>v. cell b r c = Some v"
  using wf_board_row[of b "nat r"] by (auto simp: cell_def wf_board_def)

lemma wf_countDir_cond: "wf_board b \<Longrightarrow> countDir_cond b (Some v) r c \<longleftrightarrow> cell b r c = Some v"
  using wf_cell_range[of b r c v] wf_board_row[of b 0] by (auto simp: countDir_cond_def wf_board_def)

lemma wf_runThrough:
  assumes "wf_board b" "cell b row col = Some v"
  shows "runThrough b (Some v) row col dr dc \<longleftrightarrow> (\<exists>j\<in>set [0..3]. line4 b v (row - j * dr) (col - j * dc) dr dc)"
proof -
  have e: "cell b (row - j * dr + k * dr) (col - j * dc + k * dc) = Some v \<longleftrightarrow>
           (k \<noteq> j \<longrightarrow> cell b (row + (k - j) * dr) (col + (k - j) * dc) = Some v)" for j k :: int
    using assms(2) by (cases "k = j") (simp_all add: algebra_simps)
  show ?thesis
    unfolding runThrough_def line4_def wf_countDir_cond[OF assms(1)] e by simp
qed

lemma wf_checkWin:
  assumes "wf_board b" "0 \<le> row" "row < 6"
  shows "checkWin b row col = Some (fourThrough b row col)"
proof (cases "cell b row col")
  case None
  have len: "row < int (length b)" using assms by (simp add: wf_board_def)
  have nocond: "\<not> countDir_cond b None r c" for r c
    using wf_cell_in[OF assms(1), of r c] wf_board_row[OF assms(1), of 0] assms(1)
    by (auto simp: countDir_cond_def wf_board_def)
  have other: "\<exists>k\<in>{0..3}. k \<noteq> j" for j :: int
  proof (cases "j = 0")
    case True
    have "(1::int) \<in> {0..3}" by simp
    with True show ?thesis by (intro bexI[of _ 1]) simp_all
  next
    case False
    have "(0::int) \<in> {0..3}" by simp
    with False show ?thesis by (intro bexI[of _ 0]) simp_all
  qed
  have "\<not> runThrough b None row col dr dc" for dr dc
    unfolding runThrough_def using nocond other by simp
  then show ?thesis using None assms(2) len
    by (simp add: checkWin_eq fourThrough_def)
next
  case (Some v)
  have len: "row < int (length b)" using assms by (simp add: wf_board_def)
  show ?thesis using Some assms(2) len
    by (auto simp: checkWin_eq fourThrough_def wf_runThrough[OF assms(1) Some])
qed


section \<open>Placing a mark\<close>

lemma length_setCell [simp]: "length (setCell b r c v) = length b"
  by (simp add: setCell_def)

lemma length_setCell_row [simp]: "length (setCell b r c v ! i) = length (b ! i)"
  by (cases "nat r < length b") (simp_all add: setCell_def nth_list_update list_update_beyond)

lemma cell_setCell:
  "cell (setCell b r c v) r' c' = (if r' = r \<and> c' = c \<and> cell b r c \<noteq> None then Some v else cell b r' c')"
proof (cases "cell b r c")
  case None
  then show ?thesis by (simp add: setCell_def)
next
  case (Some u)
  then have rng: "0 \<le> r" "r < int (length b)" "0 \<le> c" "c < int (length (b ! nat r))"
    using cell_Some_range by blast+
  have upd: "setCell b r c v = b[nat r := (b ! nat r)[nat c := v]]" using Some by (simp add: setCell_def)
  show ?thesis
  proof (cases "0 \<le> r' \<and> r' < int (length b) \<and> 0 \<le> c' \<and> c' < int (length (b ! nat r'))")
    case False
    then have "cell b r' c' = None" by (auto simp: cell_def)
    moreover have "cell (setCell b r c v) r' c' = None" using False by (auto simp: cell_def)
    moreover have "\<not> (r' = r \<and> c' = c)" using False rng by auto
    ultimately show ?thesis by auto
  next
    case True
    then have "cell (setCell b r c v) r' c' = Some (setCell b r c v ! nat r' ! nat c')"
      by (simp add: cell_def)
    moreover have "cell b r' c' = Some (b ! nat r' ! nat c')" using True by (simp add: cell_def)
    moreover have "setCell b r c v ! nat r' ! nat c' = (if r' = r \<and> c' = c then v else b ! nat r' ! nat c')"
      using True rng unfolding upd
      by (cases "r' = r"; cases "c' = c") (auto simp: nth_list_update)
    ultimately show ?thesis using Some by simp
  qed
qed

lemma wf_setCell [simp]: "wf_board (setCell b r c v) = wf_board b"
  by (simp add: wf_board_def list_all_length)

lemma checkDraw_eq: "b \<noteq> [] \<Longrightarrow> checkDraw b = Some (topRowFull b)"
proof -
  assume ne: "b \<noteq> []"
  then obtain row0 rest where b: "b = row0 # rest" by (cases b) auto
  have "list_all (\<lambda>x. x \<noteq> 0) row0 \<longleftrightarrow> (\<forall>c\<in>set [0..int (length row0) - 1]. cell b 0 c \<noteq> Some 0)"
  proof
    assume a: "list_all (\<lambda>x. x \<noteq> 0) row0"
    show "\<forall>c\<in>set [0..int (length row0) - 1]. cell b 0 c \<noteq> Some 0"
    proof
      fix c assume "c \<in> set [0..int (length row0) - 1]"
      then have "0 \<le> c" "nat c < length row0" by auto
      with a show "cell b 0 c \<noteq> Some 0" by (auto simp: cell_def b list_all_length)
    qed
  next
    assume a: "\<forall>c\<in>set [0..int (length row0) - 1]. cell b 0 c \<noteq> Some 0"
    show "list_all (\<lambda>x. x \<noteq> 0) row0"
      unfolding list_all_length
    proof (intro allI impI)
      fix n assume n: "n < length row0"
      then have "int n \<in> set [0..int (length row0) - 1]" by simp
      with a have "cell b 0 (int n) \<noteq> Some 0" by blast
      then show "row0 ! n \<noteq> 0" using n by (simp add: cell_def b)
    qed
  qed
  then show ?thesis by (simp add: checkDraw_def topRowFull_def b)
qed

lemma landMove_eq:
  assumes "cell (board st) row col = Some 0"
  shows "\<exists>w. checkWin (setCell (board st) row col (cellValue byPlayer)) row col = Some w \<and>
     landMove st byPlayer col row =
       Some (Inr row,
         (let b' = setCell (board st) row col (cellValue byPlayer);
              st1 = st\<lparr>board := b', lastMove := Some \<lparr>lm_col = col, lm_row = row, lm_by = byPlayer\<rparr>\<rparr>
          in if w then st1\<lparr>status := Won, winner := Some byPlayer\<rparr>
             else if topRowFull b' then st1\<lparr>status := Draw\<rparr>
             else st1\<lparr>nextTurn := otherPlayer byPlayer\<rparr>))"
proof -
  let ?b' = "setCell (board st) row col (cellValue byPlayer)"
  from cell_Some_range[OF assms] have rng: "0 \<le> row" "row < int (length (board st))" by auto
  then have ne: "?b' \<noteq> []" by (metis length_setCell list.size(3) of_nat_0 not_less)
  from rng have "checkWin ?b' row col = Some (cell ?b' row col \<noteq> Some 0 \<and>
           (\<exists>(dr, dc)\<in>set directions. runThrough ?b' (cell ?b' row col) row col dr dc))"
    by (intro checkWin_eq) simp_all
  then obtain w where w: "checkWin ?b' row col = Some w" by blast
  have "landMove st byPlayer col row =
       Some (Inr row,
         (let b' = ?b';
              st1 = st\<lparr>board := b', lastMove := Some \<lparr>lm_col = col, lm_row = row, lm_by = byPlayer\<rparr>\<rparr>
          in if w then st1\<lparr>status := Won, winner := Some byPlayer\<rparr>
             else if topRowFull b' then st1\<lparr>status := Draw\<rparr>
             else st1\<lparr>nextTurn := otherPlayer byPlayer\<rparr>))"
    using w checkDraw_eq[OF ne] by (cases w) (simp_all add: landMove_def Let_def)
  with w show ?thesis by blast
qed

lemma applyMove_loop_full:
  "\<forall>r<n. cell (board st) (int r) col \<noteq> Some 0 \<Longrightarrow>
   applyMove_loop st byPlayer col n = Some (Inl ColumnFull, st)"
  by (induction n) simp_all

lemma applyMove_loop_found:
  "\<exists>r<n. cell (board st) (int r) col = Some 0 \<Longrightarrow>
   \<exists>r<n. cell (board st) (int r) col = Some 0 \<and>
      (\<forall>r'. r < r' \<and> r' < n \<longrightarrow> cell (board st) (int r') col \<noteq> Some 0) \<and>
      applyMove_loop st byPlayer col n = landMove st byPlayer col (int r)"
proof (induction n)
  case 0
  then show ?case by simp
next
  case (Suc n)
  show ?case
  proof (cases "cell (board st) (int n) col = Some 0")
    case True
    then show ?thesis by (intro exI[of _ n]) auto
  next
    case False
    with Suc.prems have "\<exists>r<n. cell (board st) (int r) col = Some 0"
      by (metis less_Suc_eq)
    from Suc.IH[OF this] obtain r where r: "r < n" "cell (board st) (int r) col = Some 0"
      "\<forall>r'. r < r' \<and> r' < n \<longrightarrow> cell (board st) (int r') col \<noteq> Some 0"
      "applyMove_loop st byPlayer col n = landMove st byPlayer col (int r)" by blast
    have "\<forall>r'. r < r' \<and> r' < Suc n \<longrightarrow> cell (board st) (int r') col \<noteq> Some 0"
      using r(3) False by (metis less_Suc_eq)
    then show ?thesis using r False by (intro exI[of _ r]) simp
  qed
qed

lemma columnHasEmpty_nat: "columnHasEmpty b col \<longleftrightarrow> (\<exists>r<length b. cell b (int r) col = Some 0)"
proof
  assume "columnHasEmpty b col"
  then obtain r where "0 \<le> r" "r < int (length b)" "cell b r col = Some 0"
    by (auto simp: columnHasEmpty_def)
  then show "\<exists>r<length b. cell b (int r) col = Some 0" by (intro exI[of _ "nat r"]) simp
next
  assume "\<exists>r<length b. cell b (int r) col = Some 0"
  then obtain r where "r < length b" "cell b (int r) col = Some 0" by blast
  then show "columnHasEmpty b col" unfolding columnHasEmpty_def by (intro bexI[of _ "int r"]) simp_all
qed

lemma lowestEmptyRow_nat:
  "cell b (int r) col = Some 0 \<Longrightarrow> \<forall>r'. r < r' \<and> r' < length b \<longrightarrow> cell b (int r') col \<noteq> Some 0 \<Longrightarrow>
   lowestEmptyRow b col (int r)"
  unfolding lowestEmptyRow_def
proof (intro conjI ballI)
  fix x assume a: "\<forall>r'. r < r' \<and> r' < length b \<longrightarrow> cell b (int r') col \<noteq> Some 0"
    and x: "x \<in> set [int r + 1..int (length b) - 1]"
  then have "r < nat x" "nat x < length b" "int (nat x) = x" by auto
  with a show "cell b x col \<noteq> Some 0" by metis
qed simp


section \<open>The full-board scan\<close>

lemma upto_0_3: "set [0..3] = {0, 1, 2, 3::int}"
  by auto

lemma line4_iff:
  "line4 b v r c dr dc \<longleftrightarrow>
     cell b r c = Some v \<and> cell b (r + dr) (c + dc) = Some v \<and>
     cell b (r + 2 * dr) (c + 2 * dc) = Some v \<and> cell b (r + 3 * dr) (c + 3 * dc) = Some v"
  unfolding line4_def upto_0_3 by simp

lemma ex_directions:
  "(\<exists>(dr, dc)\<in>set directions. P dr dc) \<longleftrightarrow> P 0 1 \<or> P 1 0 \<or> P 1 1 \<or> P 1 (- 1)"
  by (simp add: directions_def)

lemma all_directions:
  "(\<forall>(dr, dc)\<in>set directions. P dr dc) \<longleftrightarrow> P 0 1 \<and> P 1 0 \<and> P 1 1 \<and> P 1 (- 1)"
  by (simp add: directions_def)

lemma collectCells_length:
  "length (collectCells b row col dr dc player ks cells) \<le> length cells + length ks"
proof (induction ks arbitrary: cells)
  case Nil
  then show ?case by simp
next
  case (Cons k ks)
  from Cons.IH[of "cells @ [(row + dr * k, col + dc * k)]"] show ?case
    by (simp add: Let_def)
qed

lemma collectCells_full:
  "length (collectCells b row col dr dc player ks cells) = length cells + length ks \<longleftrightarrow>
   (\<forall>k\<in>set ks. 0 \<le> row + dr * k \<and> row + dr * k < ROWS \<and> 0 \<le> col + dc * k \<and> col + dc * k < COLS
       \<and> cell b (row + dr * k) (col + dc * k) = Some player)"
proof (induction ks arbitrary: cells)
  case Nil
  then show ?case by simp
next
  case (Cons k ks)
  have short: "length (collectCells b row col dr dc player ks cs) \<noteq> Suc (length cs + length ks)" for cs
    using collectCells_length[of b row col dr dc player ks cs] by simp
  show ?case using Cons.IH[of "cells @ [(row + dr * k, col + dc * k)]"]
    by (auto simp: Let_def)
qed

lemma wf_collectCells:
  assumes "wf_board b" "cell b row col = Some player"
  shows "length (collectCells b row col dr dc player [1, 2, 3] [(row, col)]) = 4 \<longleftrightarrow>
         line4 b player row col dr dc"
proof -
  have rng: "cell b r c = Some player \<Longrightarrow> 0 \<le> r \<and> r < ROWS \<and> 0 \<le> c \<and> c < COLS" for r c
    using wf_cell_range[OF assms(1)] by (simp add: ROWS_def COLS_def)
  have "length (collectCells b row col dr dc player [1, 2, 3] [(row, col)]) = length [(row, col)] + length [1::int, 2, 3]
      \<longleftrightarrow> (\<forall>k\<in>set [1, 2, 3]. 0 \<le> row + dr * k \<and> row + dr * k < ROWS \<and> 0 \<le> col + dc * k \<and> col + dc * k < COLS
       \<and> cell b (row + dr * k) (col + dc * k) = Some player)"
    by (rule collectCells_full)
  also have "\<dots> \<longleftrightarrow> (\<forall>k\<in>set [1, 2, 3]. cell b (row + dr * k) (col + dc * k) = Some player)"
    using rng by blast
  also have "\<dots> \<longleftrightarrow> line4 b player row col dr dc"
    using assms(2) by (simp add: line4_iff mult.commute)
  finally show ?thesis by (simp del: collectCells.simps add: eval_nat_numeral)
qed

declare collectCells.simps [simp del]

lemma wf_checkWinner_dirs_Some:
  assumes "wf_board b" "cell b row col = Some player" "checkWinner_dirs b row col player ds = Some w"
  shows "w_player w = player \<and> (\<exists>(dr, dc)\<in>set ds. line4 b player row col dr dc)"
  using assms(3)
proof (induction ds)
  case Nil
  then show ?case by simp
next
  case (Cons d ds)
  obtain dr dc where d: "d = (dr, dc)" by (cases d)
  show ?case
  proof (cases "line4 b player row col dr dc")
    case True
    with Cons.prems show ?thesis
      by (auto simp: d Let_def wf_collectCells[OF assms(1,2)])
  next
    case False
    with Cons.prems have "checkWinner_dirs b row col player ds = Some w"
      by (simp add: d Let_def wf_collectCells[OF assms(1,2)])
    from Cons.IH[OF this] show ?thesis by auto
  qed
qed

lemma wf_checkWinner_dirs_None:
  assumes "wf_board b" "cell b row col = Some player"
  shows "checkWinner_dirs b row col player ds = None \<longleftrightarrow>
         (\<forall>(dr, dc)\<in>set ds. \<not> line4 b player row col dr dc)"
proof (induction ds)
  case Nil
  then show ?case by simp
next
  case (Cons d ds)
  obtain dr dc where d: "d = (dr, dc)" by (cases d)
  show ?case
  proof (cases "line4 b player row col dr dc")
    case True
    then show ?thesis by (simp add: d Let_def wf_collectCells[OF assms])
  next
    case False
    then show ?thesis using Cons.IH by (simp add: d Let_def wf_collectCells[OF assms])
  qed
qed

lemma wf_checkWinner_cells_Some:
  assumes "wf_board b" "checkWinner_cells b ps = Some w"
  shows "w_player w \<noteq> 0 \<and> (\<exists>(row, col)\<in>set ps. \<exists>(dr, dc)\<in>set directions. line4 b (w_player w) row col dr dc)"
  using assms(2)
proof (induction ps)
  case Nil
  then show ?case by simp
next
  case (Cons p ps)
  obtain row col where p: "p = (row, col)" by (cases p)
  show ?case
  proof (cases "cell b row col")
    case None
    with Cons.prems have "checkWinner_cells b ps = Some w" by (simp add: p)
    from Cons.IH[OF this] show ?thesis by auto
  next
    case (Some player)
    show ?thesis
    proof (cases "player \<noteq> 0 \<and> checkWinner_dirs b row col player directions \<noteq> None")
      case True
      then obtain w' where w': "checkWinner_dirs b row col player directions = Some w'" by auto
      with Cons.prems Some True have "w' = w" by (simp add: p)
      with wf_checkWinner_dirs_Some[OF assms(1) Some w'] True show ?thesis by (auto simp: p)
    next
      case False
      with Cons.prems Some have "checkWinner_cells b ps = Some w" by (auto simp: p split: if_splits)
      from Cons.IH[OF this] show ?thesis by auto
    qed
  qed
qed

lemma wf_checkWinner_cells_None:
  assumes "wf_board b"
  shows "checkWinner_cells b ps = None \<longleftrightarrow>
     (\<forall>(row, col)\<in>set ps. \<forall>v. v \<noteq> 0 \<longrightarrow> (\<forall>(dr, dc)\<in>set directions. \<not> line4 b v row col dr dc))"
proof (induction ps)
  case Nil
  then show ?case by simp
next
  case (Cons p ps)
  obtain row col where p: "p = (row, col)" by (cases p)
  have start: "line4 b v row col dr dc \<Longrightarrow> cell b row col = Some v" for v dr dc
    by (simp add: line4_iff)
  show ?case
  proof (cases "cell b row col")
    case None
    then have "\<not> line4 b v row col dr dc" for v dr dc using start by fastforce
    then show ?thesis using None Cons.IH by (simp add: p)
  next
    case (Some player)
    have other: "\<not> line4 b v row col dr dc" if "v \<noteq> player" for v dr dc
      using start[of v dr dc] Some that by auto
    show ?thesis
    proof (cases "player = 0")
      case True
      then have "\<forall>v. v \<noteq> 0 \<longrightarrow> (\<forall>(dr, dc)\<in>set directions. \<not> line4 b v row col dr dc)"
        using other by auto
      then show ?thesis using Some True Cons.IH by (simp add: p)
    next
      case False
      have "(\<forall>v. v \<noteq> 0 \<longrightarrow> (\<forall>(dr, dc)\<in>set directions. \<not> line4 b v row col dr dc)) \<longleftrightarrow>
            (\<forall>(dr, dc)\<in>set directions. \<not> line4 b player row col dr dc)"
      proof
        assume "\<forall>v. v \<noteq> 0 \<longrightarrow> (\<forall>(dr, dc)\<in>set directions. \<not> line4 b v row col dr dc)"
        with False show "\<forall>(dr, dc)\<in>set directions. \<not> line4 b player row col dr dc" by blast
      next
        assume r: "\<forall>(dr, dc)\<in>set directions. \<not> line4 b player row col dr dc"
        show "\<forall>v. v \<noteq> 0 \<longrightarrow> (\<forall>(dr, dc)\<in>set directions. \<not> line4 b v row col dr dc)"
        proof (intro allI impI)
          fix v :: nat assume "v \<noteq> 0"
          show "\<forall>(dr, dc)\<in>set directions. \<not> line4 b v row col dr dc"
          proof (cases "v = player")
            case True
            with r show ?thesis by simp
          next
            case False
            with other show ?thesis by simp
          qed
        qed
      qed
      then show ?thesis
        using Some False Cons.IH wf_checkWinner_dirs_None[OF assms Some, of directions]
        by (auto simp: p split: option.splits)
    qed
  qed
qed

lemma set_scan: "set (List.product [0..ROWS - 1] [0..COLS - 1]) = {(r, c). 0 \<le> r \<and> r \<le> 5 \<and> 0 \<le> c \<and> c \<le> 6}"
  by (auto simp: ROWS_def COLS_def)

lemma wf_hasLine:
  assumes "wf_board b"
  shows "hasLine b v \<longleftrightarrow> (\<exists>r c. \<exists>(dr, dc)\<in>set directions. line4 b v r c dr dc)"
proof
  assume "hasLine b v"
  then show "\<exists>r c. \<exists>(dr, dc)\<in>set directions. line4 b v r c dr dc"
    unfolding hasLine_def by blast
next
  assume "\<exists>r c. \<exists>(dr, dc)\<in>set directions. line4 b v r c dr dc"
  then obtain r c dr dc where l: "(dr, dc) \<in> set directions" "line4 b v r c dr dc" by blast
  then have "cell b r c = Some v" by (simp add: line4_iff)
  from wf_cell_range[OF assms this] have "r \<in> set [0..5]" "c \<in> set [0..6]" by auto
  with l show "hasLine b v" unfolding hasLine_def by blast
qed

lemma wf_checkWinner_Some:
  assumes "wf_board b" "checkWinner b = Some w"
  shows "w_player w \<noteq> 0 \<and> hasLine b (w_player w)"
  using wf_checkWinner_cells_Some[OF assms(1) assms(2)[unfolded checkWinner_def]]
  unfolding wf_hasLine[OF assms(1)] by blast

lemma wf_checkWinner_None:
  assumes "wf_board b"
  shows "checkWinner b = None \<longleftrightarrow> (\<forall>v. v \<noteq> 0 \<longrightarrow> \<not> hasLine b v)"
proof -
  have "checkWinner b = None \<longleftrightarrow>
     (\<forall>(row, col)\<in>{(r, c). 0 \<le> r \<and> r \<le> 5 \<and> 0 \<le> c \<and> c \<le> 6}. \<forall>v. v \<noteq> 0 \<longrightarrow>
        (\<forall>(dr, dc)\<in>set directions. \<not> line4 b v row col dr dc))"
    unfolding checkWinner_def wf_checkWinner_cells_None[OF assms] set_scan ..
  also have "\<dots> \<longleftrightarrow> (\<forall>v. v \<noteq> 0 \<longrightarrow> \<not> hasLine b v)"
    unfolding hasLine_def all_directions ex_directions by (simp add: Ball_def Bex_def) blast
  finally show ?thesis .
qed


lemma line4_cells:
  "line4 b v r c dr dc \<Longrightarrow> k \<in> {0..3} \<Longrightarrow> cell b (r + k * dr) (c + k * dc) = Some v"
  by (simp add: line4_def)

lemma line4_cong:
  assumes "\<And>k. k \<in> {0..3} \<Longrightarrow> cell b' (r + k * dr) (c + k * dc) = cell b (r + k * dr) (c + k * dc)"
  shows "line4 b' v r c dr dc = line4 b v r c dr dc"
  using assms by (simp add: line4_def)

lemma fourThrough_hasLine:
  assumes "wf_board b" "fourThrough b row col"
  shows "\<exists>v. v \<noteq> 0 \<and> hasLine b v"
proof -
  from assms(2) obtain v dr dc j where "v \<noteq> 0" "(dr, dc) \<in> set directions"
      "line4 b v (row - j * dr) (col - j * dc) dr dc"
    by (auto simp: fourThrough_def split: option.splits)
  then show ?thesis unfolding wf_hasLine[OF assms(1)] by blast
qed

section \<open>Moves and the gravity invariant\<close>

lemma validCells_cell: "validCells b \<Longrightarrow> cell b r c = Some v \<Longrightarrow> v \<le> 2"
  by (auto simp: validCells_def cell_def list_all_length split: if_splits)

lemma getAvailableRow_loop_none:
  "getAvailableRow_loop b col n = - 1 \<longleftrightarrow> (\<forall>r<n. cell b (int r) col \<noteq> Some 0)"
proof (induction n)
  case 0
  then show ?case by simp
next
  case (Suc n)
  then show ?case by (auto simp: less_Suc_eq)
qed

lemma getAvailableRow_loop_found:
  "getAvailableRow_loop b col n \<noteq> - 1 \<Longrightarrow>
   0 \<le> getAvailableRow_loop b col n \<and> getAvailableRow_loop b col n < int n \<and>
   cell b (getAvailableRow_loop b col n) col = Some 0 \<and>
   (\<forall>r'. nat (getAvailableRow_loop b col n) < r' \<and> r' < n \<longrightarrow> cell b (int r') col \<noteq> Some 0)"
proof (induction n)
  case 0
  then show ?case by simp
next
  case (Suc n)
  show ?case
  proof (cases "cell b (int n) col = Some 0")
    case True
    then show ?thesis by auto
  next
    case False
    with Suc.prems have "getAvailableRow_loop b col n \<noteq> - 1" by simp
    from Suc.IH[OF this] False show ?thesis
      by (auto simp: less_Suc_eq)
  qed
qed

lemma applyMove_client_Some:
  assumes "applyMove_client b col player = Some nb"
  shows "\<exists>row. 0 \<le> row \<and> row < 6 \<and> cell b row col = Some 0 \<and> nb = setCell b row col player
          \<and> (\<forall>r'. nat row < r' \<and> r' < 6 \<longrightarrow> cell b (int r') col \<noteq> Some 0)"
proof -
  let ?row = "getAvailableRow b col"
  from assms have nb: "\<not> ?row < 0" "nb = setCell b ?row col player"
    by (auto simp: applyMove_client_def Let_def split: if_splits)
  then have "getAvailableRow_loop b col (nat ROWS) \<noteq> - 1" by (simp add: getAvailableRow_def)
  from getAvailableRow_loop_found[OF this] nb(2) show ?thesis
    by (intro exI[of _ ?row]) (simp add: getAvailableRow_def ROWS_def)
qed

lemma no_other_line_after_move:
  assumes wf: "wf_board b" and vc: "validCells b" and p: "player = 1 \<or> player = 2"
      and no: "\<not> hasLine b (opponentOf player)"
      and mv: "applyMove_client b col player = Some nb"
      and q: "q \<noteq> 0" "hasLine nb q"
  shows "q = player"
proof (rule ccontr)
  assume ne: "q \<noteq> player"
  from applyMove_client_Some[OF mv] obtain row where row: "cell b row col = Some 0"
      "nb = setCell b row col player" by blast
  have wf': "wf_board nb" using wf row(2) by simp
  have cell': "cell nb r c = (if r = row \<and> c = col then Some player else cell b r c)" for r c
    using row by (simp add: cell_setCell)
  from q(2) obtain r c dr dc where d: "(dr, dc) \<in> set directions" and l: "line4 nb q r c dr dc"
    unfolding wf_hasLine[OF wf'] by blast
  have "cell b (r + k * dr) (c + k * dc) = Some q" if "k \<in> {0..3}" for k
    using line4_cells[OF l that] ne by (simp add: cell' split: if_splits)
  then have lb: "line4 b q r c dr dc" by (simp add: line4_def)
  then have "cell b r c = Some q" by (simp add: line4_iff)
  from validCells_cell[OF vc this] q(1) ne p have "q = opponentOf player"
    by (auto simp: opponentOf_def)
  moreover from lb d have "hasLine b q" unfolding wf_hasLine[OF wf] by blast
  ultimately show False using no by simp
qed

lemma winnerIs_after_move:
  assumes wf: "wf_board b" and vc: "validCells b" and p: "player = 1 \<or> player = 2"
      and no: "\<not> hasLine b (opponentOf player)"
      and mv: "applyMove_client b col player = Some nb"
  shows "winnerIs (checkWinner nb) player \<longleftrightarrow> hasLine nb player"
proof
  from applyMove_client_Some[OF mv] wf have wf': "wf_board nb" by auto
  {
    assume "winnerIs (checkWinner nb) player"
    then obtain w where "checkWinner nb = Some w" "w_player w = player"
      by (auto simp: winnerIs_def split: option.splits)
    with wf_checkWinner_Some[OF wf'] show "hasLine nb player" by auto
  next
    assume h: "hasLine nb player"
    from p have "player \<noteq> 0" by auto
    with h have "checkWinner nb \<noteq> None" unfolding wf_checkWinner_None[OF wf'] by blast
    then obtain w where w: "checkWinner nb = Some w" by blast
    from wf_checkWinner_Some[OF wf' w] have "w_player w \<noteq> 0" "hasLine nb (w_player w)" by simp_all
    from no_other_line_after_move[OF wf vc p no mv this] w
    show "winnerIs (checkWinner nb) player" by (simp add: winnerIs_def)
  }
qed

lemma findWinningMove_loop_first:
  assumes wf: "wf_board b" and vc: "validCells b" and p: "player = 1 \<or> player = 2"
      and no: "\<not> hasLine b (opponentOf player)"
  shows "findWinningMove_loop b player cols =
           (case filter (\<lambda>c. immediateWin b c player) cols of [] \<Rightarrow> None | c # _ \<Rightarrow> Some c)"
proof (induction cols)
  case Nil
  then show ?case by simp
next
  case (Cons c cols)
  show ?case
  proof (cases "applyMove_client b c player")
    case None
    then show ?thesis using Cons.IH by (simp add: immediateWin_def)
  next
    case (Some nb)
    from winnerIs_after_move[OF wf vc p no Some] Some show ?thesis using Cons.IH
      by (simp add: immediateWin_def)
  qed
qed

lemma applyMove_Inr:
  assumes "applyMove st byPlayer col = Some (Inr row, st')"
  shows "\<exists>w. status st = Playing \<and> nextTurn st = byPlayer \<and> 0 \<le> col \<and> col < 7
      \<and> lowestEmptyRow (board st) col row
      \<and> checkWin (setCell (board st) row col (cellValue byPlayer)) row col = Some w
      \<and> st' = (let b' = setCell (board st) row col (cellValue byPlayer);
                   st1 = st\<lparr>board := b', lastMove := Some \<lparr>lm_col = col, lm_row = row, lm_by = byPlayer\<rparr>\<rparr>
               in if w then st1\<lparr>status := Won, winner := Some byPlayer\<rparr>
                  else if topRowFull b' then st1\<lparr>status := Draw\<rparr>
                  else st1\<lparr>nextTurn := otherPlayer byPlayer\<rparr>)"
proof -
  from assms have pre: "status st = Playing" "nextTurn st = byPlayer" "0 \<le> col" "col < 7"
    and loop: "applyMove_loop st byPlayer col (length (board st)) = Some (Inr row, st')"
    by (auto simp: applyMove_def split: if_splits)
  have "\<exists>r<length (board st). cell (board st) (int r) col = Some 0"
  proof (rule ccontr)
    assume "\<not> (\<exists>r<length (board st). cell (board st) (int r) col = Some 0)"
    then have "\<forall>r<length (board st). cell (board st) (int r) col \<noteq> Some 0" by blast
    from applyMove_loop_full[OF this, of byPlayer] loop show False by simp
  qed
  from applyMove_loop_found[OF this, of byPlayer] obtain r where
    r: "cell (board st) (int r) col = Some 0"
       "\<forall>r'. r < r' \<and> r' < length (board st) \<longrightarrow> cell (board st) (int r') col \<noteq> Some 0"
       "applyMove_loop st byPlayer col (length (board st)) = landMove st byPlayer col (int r)"
    by blast
  from landMove_eq[OF r(1), of byPlayer] r(3) loop obtain w where
    w: "checkWin (setCell (board st) (int r) col (cellValue byPlayer)) (int r) col = Some w"
       "Some (Inr row, st') = Some (Inr (int r),
         (let b' = setCell (board st) (int r) col (cellValue byPlayer);
              st1 = st\<lparr>board := b', lastMove := Some \<lparr>lm_col = col, lm_row = int r, lm_by = byPlayer\<rparr>\<rparr>
          in if w then st1\<lparr>status := Won, winner := Some byPlayer\<rparr>
             else if topRowFull b' then st1\<lparr>status := Draw\<rparr>
             else st1\<lparr>nextTurn := otherPlayer byPlayer\<rparr>))"
    by auto
  from w(2) have row: "row = int r" by simp
  from lowestEmptyRow_nat[OF r(1,2)] pre w show ?thesis unfolding row by (intro exI[of _ w]) simp
qed

lemma filter_update_count:
  "j < length xs \<Longrightarrow> xs ! j = 0 \<Longrightarrow> v \<noteq> 0 \<Longrightarrow>
   length (filter (\<lambda>x. x \<noteq> 0) (xs[j := v])) = Suc (length (filter (\<lambda>x. x \<noteq> (0::nat)) xs))"
proof (induction xs arbitrary: j)
  case Nil
  then show ?case by simp
next
  case (Cons x xs)
  then show ?case by (cases j) auto
qed

lemma sum_list_map_update:
  "i < length xs \<Longrightarrow> f y = Suc (f (xs ! i)) \<Longrightarrow>
   sum_list (map f (xs[i := y])) = Suc (sum_list (map f xs))"
proof (induction xs arbitrary: i)
  case Nil
  then show ?case by simp
next
  case (Cons x xs)
  then show ?case by (cases i) auto
qed

lemma countMarks_setCell:
  assumes "cell b r c = Some 0" "v \<noteq> 0"
  shows "countMarks (setCell b r c v) = Suc (countMarks b)"
proof -
  from cell_Some_range[OF assms(1)] have rng: "nat r < length b" "nat c < length (b ! nat r)" by auto
  from assms(1) have zero: "b ! nat r ! nat c = 0" by (simp add: cell_def split: if_splits)
  have "setCell b r c v = b[nat r := (b ! nat r)[nat c := v]]" using assms(1) by (simp add: setCell_def)
  then show ?thesis
    unfolding countMarks_def
    using sum_list_map_update[OF rng(1), of "\<lambda>row. length (filter (\<lambda>x. x \<noteq> 0) row)" "(b ! nat r)[nat c := v]"]
      filter_update_count[OF rng(2) zero assms(2)]
    by simp
qed

lemma occupied_setCell:
  assumes "cell b row col = Some 0" "v \<noteq> 0"
  shows "occupied (setCell b row col v) r c \<longleftrightarrow> (r = row \<and> c = col) \<or> occupied b r c"
  using assms by (auto simp: occupied_def cell_setCell)

lemma wf_occupied: "wf_board b \<Longrightarrow> 0 \<le> r \<Longrightarrow> r < 6 \<Longrightarrow> 0 \<le> c \<Longrightarrow> c < 7 \<Longrightarrow> occupied b r c \<longleftrightarrow> cell b r c \<noteq> Some 0"
  using wf_cell_in[of b r c] by (auto simp: occupied_def)

lemma gravity_setCell:
  assumes wf: "wf_board b" and g: "gravity b" and e: "cell b row col = Some 0" and v: "v \<noteq> 0"
      and low: "lowestEmptyRow b col row"
  shows "gravity (setCell b row col v)"
  unfolding gravity_def
proof (intro ballI impI)
  fix c r r' assume c: "c \<in> set [0..6]" and r: "r \<in> set [0..5]"
    and occ: "occupied (setCell b row col v) r c" and r': "r' \<in> set [r + 1..5]"
  from wf_cell_range[OF wf e] have rc: "0 \<le> row" "row < 6" "0 \<le> col" "col < 7" by auto
  have len: "int (length b) = 6" using wf by (simp add: wf_board_def)
  show "occupied (setCell b row col v) r' c"
  proof (cases "r = row \<and> c = col")
    case True
    with r' have "r' \<in> set [row + 1..int (length b) - 1]" by (simp add: len)
    with low have "cell b r' col \<noteq> Some 0" unfolding lowestEmptyRow_def by blast
    moreover from r' r have "0 \<le> r'" "r' < 6" by auto
    ultimately have "occupied b r' col" using wf_occupied[OF wf _ _ rc(3,4)] by simp
    with True show ?thesis by (simp add: occupied_setCell[OF e v])
  next
    case False
    with occ have "occupied b r c" by (simp add: occupied_setCell[OF e v])
    with g c r r' have "occupied b r' c" unfolding gravity_def by blast
    then show ?thesis by (simp add: occupied_setCell[OF e v])
  qed
qed

lemma applyMove_client_lowest:
  assumes "wf_board b" "applyMove_client b col player = Some b'"
  shows "\<exists>row. cell b row col = Some 0 \<and> lowestEmptyRow b col row \<and> b' = setCell b row col player"
proof -
  from applyMove_client_Some[OF assms(2)] obtain row where
    row: "0 \<le> row" "cell b row col = Some 0" "b' = setCell b row col player"
      "\<forall>r'. nat row < r' \<and> r' < 6 \<longrightarrow> cell b (int r') col \<noteq> Some 0" by blast
  have len: "length b = 6" using assms(1) by (simp add: wf_board_def)
  have "lowestEmptyRow b col (int (nat row))"
    using row by (intro lowestEmptyRow_nat) (simp_all add: len)
  with row show ?thesis by auto
qed

lemma reachable_invariant:
  "reachable b n \<Longrightarrow> wf_board b \<and> gravity b \<and> countMarks b = n"
proof (induction rule: reachable.induct)
  case reach_empty
  have "wf_board emptyBoard" "countMarks emptyBoard = 0" by code_simp+
  moreover have "\<not> occupied emptyBoard r c" for r c
  proof (cases "0 \<le> r \<and> r < 6")
    case True
    then have "nat r < 6" by linarith
    then have "emptyBoard ! nat r = replicate 7 0" by (simp add: emptyBoard_def)
    then show ?thesis by (auto simp: occupied_def cell_def split: option.splits)
  next
    case False
    then show ?thesis by (auto simp: occupied_def cell_def emptyBoard_def)
  qed
  ultimately show ?case by (simp add: gravity_def)
next
  case (reach_server st n byPlayer col row st')
  from applyMove_Inr[OF reach_server.hyps(2)] have
    low: "lowestEmptyRow (board st) col row"
    and b': "board st' = setCell (board st) row col (cellValue byPlayer)"
    by (auto simp: Let_def split: if_splits)
  from low have e: "cell (board st) row col = Some 0" by (simp add: lowestEmptyRow_def)
  have v: "cellValue byPlayer \<noteq> 0" by (simp add: cellValue_def)
  from reach_server.IH gravity_setCell[OF _ _ e v low] countMarks_setCell[OF e v]
  show ?case by (simp add: b')
next
  case (reach_client b n player col b')
  then have wf: "wf_board b" by simp
  from applyMove_client_lowest[OF wf reach_client.hyps(3)] obtain row where
    row: "cell b row col = Some 0" "lowestEmptyRow b col row" "b' = setCell b row col player" by blast
  have v: "player \<noteq> 0" using reach_client.hyps(2) by auto
  from reach_client.IH gravity_setCell[OF _ _ row(1) v row(2)] countMarks_setCell[OF row(1) v]
  show ?case by (simp add: row(3))
qed

lemma gravity_fullIffTop:
  assumes wf: "wf_board b" and g: "gravity b"
  shows "fullIffTop b"
  unfolding fullIffTop_def
proof
  fix c assume c: "c \<in> set [0..6]"
  then have c': "0 \<le> c" "c < 7" by auto
  have len: "int (length b) = 6" using wf by (simp add: wf_board_def)
  show "(\<not> columnHasEmpty b c) = occupied b 0 c"
  proof
    assume "\<not> columnHasEmpty b c"
    then have "cell b 0 c \<noteq> Some 0" unfolding columnHasEmpty_def len by auto
    then show "occupied b 0 c" using wf_occupied[OF wf _ _ c', of 0] by simp
  next
    assume top: "occupied b 0 c"
    show "\<not> columnHasEmpty b c"
    proof
      assume "columnHasEmpty b c"
      then obtain r where r: "0 \<le> r" "r < 6" "cell b r c = Some 0"
        unfolding columnHasEmpty_def len by auto
      have "occupied b r c"
      proof (cases "r = 0")
        case True
        with top show ?thesis by simp
      next
        case False
        with r have "r \<in> set [0 + 1..5]" by simp
        moreover have "(0::int) \<in> set [0..5]" by simp
        ultimately show ?thesis using g c top unfolding gravity_def by blast
      qed
      with r(3) show False by (simp add: occupied_def)
    qed
  qed
qed

lemma isBoardFull_iff: "isBoardFull b \<longleftrightarrow> (\<forall>row\<in>set b. \<forall>x\<in>set row. x \<noteq> 0)"
  by (simp add: isBoardFull_def list_all_iff)

lemma wf_isBoardFull:
  assumes wf: "wf_board b"
  shows "isBoardFull b \<longleftrightarrow> (\<forall>r\<in>set [0..5]. \<forall>c\<in>set [0..6]. occupied b r c)"
proof
  assume full: "isBoardFull b"
  show "\<forall>r\<in>set [0..5]. \<forall>c\<in>set [0..6]. occupied b r c"
  proof (intro ballI)
    fix r c :: int assume "r \<in> set [0..5]" "c \<in> set [0..6]"
    then have rc: "0 \<le> r" "r < 6" "0 \<le> c" "c < 7" by auto
    from wf_cell_in[OF wf rc] obtain v where v: "cell b r c = Some v" by blast
    from cell_Some_range[OF v] have "nat r < length b" "nat c < length (b ! nat r)" by auto
    then have "b ! nat r \<in> set b" "b ! nat r ! nat c \<in> set (b ! nat r)" by simp_all
    with full have "b ! nat r ! nat c \<noteq> 0" unfolding isBoardFull_iff by blast
    moreover from v have "v = b ! nat r ! nat c" by (simp add: cell_def split: if_splits)
    ultimately show "occupied b r c" using v by (simp add: occupied_def)
  qed
next
  assume occ: "\<forall>r\<in>set [0..5]. \<forall>c\<in>set [0..6]. occupied b r c"
  show "isBoardFull b"
    unfolding isBoardFull_iff
  proof (intro ballI)
    fix row x assume "row \<in> set b" "x \<in> set row"
    then obtain i j where i: "i < length b" "row = b ! i" and j: "j < length row" "x = row ! j"
      by (metis in_set_conv_nth)
    from wf i have i6: "i < 6" by (simp add: wf_board_def)
    with wf_board_row[OF wf i6] i j have j7: "j < 7" by simp
    from i6 j7 have "int i \<in> set [0..5]" "int j \<in> set [0..6]" by simp_all
    with occ have "occupied b (int i) (int j)" by blast
    moreover have "cell b (int i) (int j) = Some x" using i j by (simp add: cell_def)
    ultimately show "x \<noteq> 0" by (simp add: occupied_def)
  qed
qed

lemma wf_topRowFull:
  assumes wf: "wf_board b"
  shows "topRowFull b \<longleftrightarrow> (\<forall>c\<in>set [0..6]. occupied b 0 c)"
proof -
  have len: "int (length (b ! 0)) - 1 = 6" using wf_board_row[OF wf, of 0] by simp
  have "occupied b 0 c \<longleftrightarrow> cell b 0 c \<noteq> Some 0" if "c \<in> set [0..6]" for c
    using that wf_occupied[OF wf, of 0 c] by simp
  then show ?thesis unfolding topRowFull_def len by blast
qed

lemma gravity_full:
  assumes wf: "wf_board b" and g: "gravity b"
  shows "isBoardFull b = topRowFull b"
  unfolding wf_isBoardFull[OF wf] wf_topRowFull[OF wf]
proof
  assume "\<forall>r\<in>set [0..5]. \<forall>c\<in>set [0..6]. occupied b r c"
  moreover have "(0::int) \<in> set [0..5]" by simp
  ultimately show "\<forall>c\<in>set [0..6]. occupied b 0 c" by blast
next
  assume top: "\<forall>c\<in>set [0..6]. occupied b 0 c"
  show "\<forall>r\<in>set [0..5]. \<forall>c\<in>set [0..6]. occupied b r c"
  proof (intro ballI)
    fix r c :: int assume r: "r \<in> set [0..5]" and c: "c \<in> set [0..6]"
    show "occupied b r c"
    proof (cases "r = 0")
      case True
      with top c show ?thesis by simp
    next
      case False
      with r have "r \<in> set [0 + 1..5]" by simp
      moreover have "(0::int) \<in> set [0..5]" by simp
      moreover from top c have "occupied b 0 c" by blast
      ultimately show ?thesis using g c unfolding gravity_def by blast
    qed
  qed
qed

lemma reachable_exTwoMoves: "reachable exTwoMoves 2"
proof -
  let ?st0 = "exState emptyBoard Playing P1"
  let ?st1 = "(exState exOneMove Playing P2)\<lparr>lastMove := Some \<lparr>lm_col = 3, lm_row = 5, lm_by = P1\<rparr>\<rparr>"
  have b0: "board ?st0 = emptyBoard" and b1: "board ?st1 = exOneMove" by (simp_all add: exState_def)
  have m1: "applyMove ?st0 P1 3 = Some (Inr 5, ?st1)" by code_simp
  have m2: "applyMove_client exOneMove 3 2 = Some exTwoMoves" by code_simp
  have "reachable (board ?st0) 0" unfolding b0 by (rule reach_empty)
  from reach_server[OF this m1] have "reachable exOneMove (Suc 0)" unfolding b1 .
  from reach_client[OF this _ m2] show ?thesis by (simp add: numeral_2_eq_2)
qed

section \<open>The heuristic evaluation and the search loops\<close>

lemma evaluateWindow_add: "evaluateWindow player w s = s + windowValue player w"
  by (simp add: evaluateWindow_def windowValue_def Let_def)

lemma fold_add_prod:
  "fold (\<lambda>(x, y) s. s + f x y) xs s0 = s0 + sum_list (map (\<lambda>(x, y). f x y) xs)"
  by (induction xs arbitrary: s0) (auto simp: algebra_simps)

lemma upto_0_3_list: "[0..3] = [0, 1, 2, 3::int]"
  by code_simp

lemma sourceWindows_sum:
  "sum_list (map (\<lambda>w. windowValue player (windowCells b w)) sourceWindows) =
     sum_list (map (\<lambda>(row, col). windowValue player
        [cell b row col, cell b row (col + 1), cell b row (col + 2), cell b row (col + 3)])
        (List.product [0..ROWS - 1] [0..COLS - 4]))
   + sum_list (map (\<lambda>(col, row). windowValue player
        [cell b row col, cell b (row + 1) col, cell b (row + 2) col, cell b (row + 3) col])
        (List.product [0..COLS - 1] [0..ROWS - 4]))
   + sum_list (map (\<lambda>(row, col). windowValue player
        [cell b row col, cell b (row + 1) (col + 1), cell b (row + 2) (col + 2), cell b (row + 3) (col + 3)])
        (List.product [0..ROWS - 4] [0..COLS - 4]))
   + sum_list (map (\<lambda>(row, col). windowValue player
        [cell b row col, cell b (row - 1) (col + 1), cell b (row - 2) (col + 2), cell b (row - 3) (col + 3)])
        (List.product [3..ROWS - 1] [0..COLS - 4]))"
  unfolding sourceWindows_def
  by (simp add: comp_def split_def upto_0_3_list)

lemma scorePosition_sum:
  "scorePosition b player =
     sum_list (map (\<lambda>w. windowValue player (windowCells b w)) sourceWindows)
     + 3 * int (length (filter (\<lambda>r. cell b r 3 = Some player) [0..ROWS - 1]))"
proof -
  have c: "COLS div 2 = 3" by (simp add: COLS_def)
  show ?thesis
    unfolding sourceWindows_sum scorePosition_def Let_def evaluateWindow_add fold_add_prod c
    by simp
qed

lemma sourceWindows_perm:
  "distinct sourceWindows" "distinct allWindows" "set sourceWindows = set allWindows"
  by code_simp+

lemma windowValue_rev: "windowValue player (rev w) = windowValue player w"
  by (simp add: windowValue_def rev_filter[symmetric])

lemma maximizing_loop_skip:
  "applyMove_client b col player = None \<Longrightarrow>
   maximizing_loop child b player alpha beta (col # cols) bestScore bestCol =
   maximizing_loop child b player alpha beta cols bestScore bestCol"
  by simp

lemma maximizing_loop_step:
  assumes "applyMove_client b col player = Some nb"
      and "best' = (if bestScore < fst (child nb alpha beta) then fst (child nb alpha beta) else bestScore)"
      and "col' = (if bestScore < fst (child nb alpha beta) then Some col else bestCol)"
      and "alpha' = max alpha best'"
  shows "maximizing_loop child b player alpha beta (col # cols) bestScore bestCol =
     (if beta \<le> alpha' then (best', col')
      else maximizing_loop child b player alpha' beta cols best' col')"
  using assms by (simp add: Let_def)

lemma minimizing_loop_skip:
  "applyMove_client b col opponent = None \<Longrightarrow>
   minimizing_loop child b opponent alpha beta (col # cols) bestScore bestCol =
   minimizing_loop child b opponent alpha beta cols bestScore bestCol"
  by simp

lemma minimizing_loop_step:
  assumes "applyMove_client b col opponent = Some nb"
      and "best' = (if fst (child nb alpha beta) < bestScore then fst (child nb alpha beta) else bestScore)"
      and "col' = (if fst (child nb alpha beta) < bestScore then Some col else bestCol)"
      and "beta' = min beta best'"
  shows "minimizing_loop child b opponent alpha beta (col # cols) bestScore bestCol =
     (if beta' \<le> alpha then (best', col')
      else minimizing_loop child b opponent alpha beta' cols best' col')"
  using assms by (simp add: Let_def)

declare maximizing_loop.simps(2) [simp del]
declare minimizing_loop.simps(2) [simp del]

lemma maximizing_loop_ge:
  "bestScore \<le> fst (maximizing_loop child b player alpha beta cols bestScore bestCol)"
proof (induction cols arbitrary: alpha bestScore bestCol)
  case Nil
  then show ?case by simp
next
  case (Cons col cols)
  show ?case
  proof (cases "applyMove_client b col player")
    case None
    then show ?thesis using Cons.IH by (simp add: maximizing_loop_skip)
  next
    case (Some nb)
    define best' where "best' = (if bestScore < fst (child nb alpha beta) then fst (child nb alpha beta) else bestScore)"
    define col' where "col' = (if bestScore < fst (child nb alpha beta) then Some col else bestCol)"
    define alpha' where "alpha' = max alpha best'"
    note step = maximizing_loop_step[where child = child and alpha = alpha and beta = beta and bestScore = bestScore
      and bestCol = bestCol, OF Some best'_def col'_def alpha'_def, of cols]
    have le: "bestScore \<le> best'" unfolding best'_def by auto
    show ?thesis
    proof (cases "beta \<le> alpha'")
      case True
      then show ?thesis unfolding step using le by simp
    next
      case False
      have "best' \<le> fst (maximizing_loop child b player alpha' beta cols best' col')"
        by (rule Cons.IH)
      with le have "bestScore \<le> fst (maximizing_loop child b player alpha' beta cols best' col')"
        by (rule order_trans)
      then show ?thesis unfolding step using False by simp
    qed
  qed
qed

lemma maximizing_loop_append:
  assumes "bestScore \<le> alpha" "alpha < beta"
  shows "maximizing_loop child b player alpha beta (pre @ post) bestScore bestCol =
     (case maximizing_loop child b player alpha beta pre bestScore bestCol of
        (s, c) \<Rightarrow> if max alpha s < beta then maximizing_loop child b player (max alpha s) beta post s c
                  else (s, c))"
  using assms
proof (induction pre arbitrary: alpha bestScore bestCol)
  case Nil
  then have "max alpha bestScore = alpha" "bestScore < beta" by (auto simp: max_absorb1)
  with Nil show ?case by simp
next
  case (Cons col pre)
  show ?case
  proof (cases "applyMove_client b col player")
    case None
    then show ?thesis using Cons.IH[OF Cons.prems] by (simp add: maximizing_loop_skip)
  next
    case (Some nb)
    define best' where "best' = (if bestScore < fst (child nb alpha beta) then fst (child nb alpha beta) else bestScore)"
    define col' where "col' = (if bestScore < fst (child nb alpha beta) then Some col else bestCol)"
    define alpha' where "alpha' = max alpha best'"
    note step = maximizing_loop_step[where child = child and alpha = alpha and beta = beta and bestScore = bestScore
      and bestCol = bestCol, OF Some best'_def col'_def alpha'_def]
    show ?thesis
    proof (cases "beta \<le> alpha'")
      case True
      have L: "maximizing_loop child b player alpha beta ((col # pre) @ post) bestScore bestCol = (best', col')"
        using step[of "pre @ post"] True by simp
      have R: "maximizing_loop child b player alpha beta (col # pre) bestScore bestCol = (best', col')"
        using step[of pre] True by simp
      from True have "\<not> max alpha best' < beta" unfolding alpha'_def by (rule leD)
      then show ?thesis unfolding L R prod.case by (simp only: if_False)
    next
      case False
      then have lt: "alpha' < beta" by simp
      have le: "best' \<le> alpha'" unfolding alpha'_def by (rule max.cobounded2)
      obtain s c where sc: "maximizing_loop child b player alpha' beta pre best' col' = (s, c)"
        by (cases "maximizing_loop child b player alpha' beta pre best' col'")
      from maximizing_loop_ge[of best' child b player alpha' beta pre col'] sc have ge: "best' \<le> s" by simp
      have m: "max alpha' s = max alpha s"
        unfolding alpha'_def by (simp only: max.assoc max_absorb2[OF ge])
      have L: "maximizing_loop child b player alpha beta ((col # pre) @ post) bestScore bestCol =
               maximizing_loop child b player alpha' beta (pre @ post) best' col'"
        using step[of "pre @ post"] False by simp
      have R: "maximizing_loop child b player alpha beta (col # pre) bestScore bestCol = (s, c)"
        using step[of pre] False sc by simp
      show ?thesis unfolding L R Cons.IH[OF le lt] sc prod.case m ..
    qed
  qed
qed

lemma minimizing_loop_le:
  "fst (minimizing_loop child b opponent alpha beta cols bestScore bestCol) \<le> bestScore"
proof (induction cols arbitrary: beta bestScore bestCol)
  case Nil
  then show ?case by simp
next
  case (Cons col cols)
  show ?case
  proof (cases "applyMove_client b col opponent")
    case None
    then show ?thesis using Cons.IH by (simp add: minimizing_loop_skip)
  next
    case (Some nb)
    define best' where "best' = (if fst (child nb alpha beta) < bestScore then fst (child nb alpha beta) else bestScore)"
    define col' where "col' = (if fst (child nb alpha beta) < bestScore then Some col else bestCol)"
    define beta' where "beta' = min beta best'"
    note step = minimizing_loop_step[where child = child and alpha = alpha and beta = beta and bestScore = bestScore
      and bestCol = bestCol, OF Some best'_def col'_def beta'_def, of cols]
    have le: "best' \<le> bestScore" unfolding best'_def by auto
    show ?thesis
    proof (cases "beta' \<le> alpha")
      case True
      then show ?thesis unfolding step using le by simp
    next
      case False
      have "fst (minimizing_loop child b opponent alpha beta' cols best' col') \<le> best'"
        by (rule Cons.IH)
      then have "fst (minimizing_loop child b opponent alpha beta' cols best' col') \<le> bestScore"
        using le by (rule order_trans)
      then show ?thesis unfolding step using False by simp
    qed
  qed
qed

lemma minimizing_loop_append:
  assumes "beta \<le> bestScore" "alpha < beta"
  shows "minimizing_loop child b opponent alpha beta (pre @ post) bestScore bestCol =
     (case minimizing_loop child b opponent alpha beta pre bestScore bestCol of
        (s, c) \<Rightarrow> if alpha < min beta s then minimizing_loop child b opponent alpha (min beta s) post s c
                  else (s, c))"
  using assms
proof (induction pre arbitrary: beta bestScore bestCol)
  case Nil
  then have "min beta bestScore = beta" "alpha < bestScore" by (auto simp: min_absorb1)
  with Nil show ?case by simp
next
  case (Cons col pre)
  show ?case
  proof (cases "applyMove_client b col opponent")
    case None
    then show ?thesis using Cons.IH[OF Cons.prems] by (simp add: minimizing_loop_skip)
  next
    case (Some nb)
    define best' where "best' = (if fst (child nb alpha beta) < bestScore then fst (child nb alpha beta) else bestScore)"
    define col' where "col' = (if fst (child nb alpha beta) < bestScore then Some col else bestCol)"
    define beta' where "beta' = min beta best'"
    note step = minimizing_loop_step[where child = child and alpha = alpha and beta = beta and bestScore = bestScore
      and bestCol = bestCol, OF Some best'_def col'_def beta'_def]
    show ?thesis
    proof (cases "beta' \<le> alpha")
      case True
      have L: "minimizing_loop child b opponent alpha beta ((col # pre) @ post) bestScore bestCol = (best', col')"
        using step[of "pre @ post"] True by simp
      have R: "minimizing_loop child b opponent alpha beta (col # pre) bestScore bestCol = (best', col')"
        using step[of pre] True by simp
      from True have "\<not> alpha < min beta best'" unfolding beta'_def by (rule leD)
      then show ?thesis unfolding L R prod.case by (simp only: if_False)
    next
      case False
      then have lt: "alpha < beta'" by simp
      have le: "beta' \<le> best'" unfolding beta'_def by (rule min.cobounded2)
      obtain s c where sc: "minimizing_loop child b opponent alpha beta' pre best' col' = (s, c)"
        by (cases "minimizing_loop child b opponent alpha beta' pre best' col'")
      from minimizing_loop_le[of child b opponent alpha beta' pre best' col'] sc have ge: "s \<le> best'" by simp
      have m: "min beta' s = min beta s"
        unfolding beta'_def by (simp only: min.assoc min_absorb2[OF ge])
      have L: "minimizing_loop child b opponent alpha beta ((col # pre) @ post) bestScore bestCol =
               minimizing_loop child b opponent alpha beta' (pre @ post) best' col'"
        using step[of "pre @ post"] False by simp
      have R: "minimizing_loop child b opponent alpha beta (col # pre) bestScore bestCol = (s, c)"
        using step[of pre] False sc by simp
      show ?thesis unfolding L R Cons.IH[OF le lt] sc prod.case m ..
    qed
  qed
qed

lemma getValidColumns_order:
  "sorted_wrt (<) (getValidColumns b)" "set (getValidColumns b) \<subseteq> {0..6}"
  unfolding getValidColumns_def by (auto simp: COLS_def intro: sorted_wrt_filter)

lemma getValidColumns_playable:
  assumes "col \<in> set (getValidColumns b)"
  shows "applyMove_client b col player = Some (setCell b (getAvailableRow b col) col player)"
proof -
  from assms have "getAvailableRow_loop b col (nat ROWS) \<noteq> - 1"
    by (simp add: getValidColumns_def getAvailableRow_def)
  from getAvailableRow_loop_found[OF this] show ?thesis
    by (simp add: applyMove_client_def getAvailableRow_def Let_def)
qed

section \<open>The sweep\<close>

lemma sweep_loop_lookup:
  "map_of (sweep_loop now rest rs) code =
     (if \<exists>rm. (code, rm) \<in> set rest \<and> idle now rm then None else map_of rs code)"
proof (induction rest arbitrary: rs)
  case Nil
  then show ?case by simp
next
  case (Cons e rest)
  obtain k rm where e: "e = (k, rm)" by (cases e)
  show ?case
  proof (cases "idle now rm")
    case True
    then have "sweep_loop now (e # rest) rs = sweep_loop now rest (AList.delete k rs)"
      by (simp add: e idle_def)
    then show ?thesis using Cons.IH[of "AList.delete k rs"] True
      by (auto simp: e delete_conv')
  next
    case False
    then have "sweep_loop now (e # rest) rs = sweep_loop now rest rs"
      by (auto simp: e idle_def)
    then show ?thesis using Cons.IH[of rs] False by (auto simp: e)
  qed
qed

section \<open>Claims about the server's move adjudication\<close>

text \<open>
  C2.  \<^verbatim>\<open>applyMove\<close> fails exactly in four cases, tested in this order: the game is not
  Playing; else it is not the mover's turn; else the column is outside [0,7); else the column
  has no empty cell.  In every other case it returns a row.  A call that fails leaves the
  whole game state as it was.
\<close>

theorem applyMove_failures:
  "(status st \<noteq> Playing \<longrightarrow> applyMove st byPlayer col = Some (Inl NotPlaying, st)) \<and>
   (status st = Playing \<and> nextTurn st \<noteq> byPlayer \<longrightarrow>
      applyMove st byPlayer col = Some (Inl OutOfTurn, st)) \<and>
   (status st = Playing \<and> nextTurn st = byPlayer \<and> (col < 0 \<or> 7 \<le> col) \<longrightarrow>
      applyMove st byPlayer col = Some (Inl InvalidColumn, st)) \<and>
   (status st = Playing \<and> nextTurn st = byPlayer \<and> 0 \<le> col \<and> col < 7 \<and>
      \<not> columnHasEmpty (board st) col \<longrightarrow>
      applyMove st byPlayer col = Some (Inl ColumnFull, st)) \<and>
   (status st = Playing \<and> nextTurn st = byPlayer \<and> 0 \<le> col \<and> col < 7 \<and>
      columnHasEmpty (board st) col \<longrightarrow>
      (\<exists>row st'. applyMove st byPlayer col = Some (Inr row, st'))) \<and>
   (\<forall>e st'. applyMove st byPlayer col = Some (Inl e, st') \<longrightarrow> st' = st)"
proof -
  have full: "applyMove st byPlayer col = Some (Inl ColumnFull, st)"
    if "status st = Playing" "nextTurn st = byPlayer" "0 \<le> col" "col < 7"
       "\<not> columnHasEmpty (board st) col"
  proof -
    from that(5) have "\<forall>r<length (board st). cell (board st) (int r) col \<noteq> Some 0"
      unfolding columnHasEmpty_nat by blast
    from applyMove_loop_full[OF this] that(1-4) show ?thesis by (simp add: applyMove_def)
  qed
  have lands: "\<exists>row st'. applyMove st byPlayer col = Some (Inr row, st')"
    if "status st = Playing" "nextTurn st = byPlayer" "0 \<le> col" "col < 7"
       "columnHasEmpty (board st) col"
  proof -
    from that(5) obtain r where r: "cell (board st) (int r) col = Some 0"
        "applyMove_loop st byPlayer col (length (board st)) = landMove st byPlayer col (int r)"
      using applyMove_loop_found[of "length (board st)" st col byPlayer]
      unfolding columnHasEmpty_nat by blast
    from landMove_eq[OF r(1), of byPlayer] obtain st' where
      "landMove st byPlayer col (int r) = Some (Inr (int r), st')" by blast
    with r(2) that(1-4) show ?thesis by (simp add: applyMove_def)
  qed
  have same: "st' = st" if f: "applyMove st byPlayer col = Some (Inl e, st')" for e st'
  proof (cases "status st = Playing \<and> nextTurn st = byPlayer \<and> 0 \<le> col \<and> col < 7")
    case False
    with f show ?thesis by (auto simp: applyMove_def split: if_splits)
  next
    case True
    show ?thesis
    proof (cases "columnHasEmpty (board st) col")
      case True
      with lands \<open>status st = Playing \<and> nextTurn st = byPlayer \<and> 0 \<le> col \<and> col < 7\<close> f
      show ?thesis by auto
    next
      case False
      with full True f show ?thesis by auto
    qed
  qed
  show ?thesis using full lands same by (auto simp: applyMove_def)
qed

theorem applyMove_failures_witness:
  "applyMove (exState exThree Waiting P1) P1 3 = Some (Inl NotPlaying, exState exThree Waiting P1) \<and>
   applyMove (exState exThree Won P1) P1 3 = Some (Inl NotPlaying, exState exThree Won P1) \<and>
   applyMove (exState exThree Playing P1) P2 3 = Some (Inl OutOfTurn, exState exThree Playing P1) \<and>
   applyMove (exState exThree Playing P1) P1 7 = Some (Inl InvalidColumn, exState exThree Playing P1) \<and>
   applyMove (exState exThree Playing P1) P1 (- 1) = Some (Inl InvalidColumn, exState exThree Playing P1) \<and>
   applyMove (exState exAlmostFull Playing P1) P1 1 = Some (Inl ColumnFull, exState exAlmostFull Playing P1) \<and>
   (\<exists>row st'. applyMove (exState exAlmostFull Playing P1) P1 0 = Some (Inr row, st'))"
proof -
  have st: "status (exState exThree Waiting P1) \<noteq> Playing" "status (exState exThree Won P1) \<noteq> Playing"
      "status (exState exThree Playing P1) = Playing" "nextTurn (exState exThree Playing P1) = P1"
      "status (exState exAlmostFull Playing P1) = Playing" "nextTurn (exState exAlmostFull Playing P1) = P1"
    by code_simp+
  have cols: "\<not> columnHasEmpty (board (exState exAlmostFull Playing P1)) 1"
      "columnHasEmpty (board (exState exAlmostFull Playing P1)) 0"
    by code_simp+
  show ?thesis
    using applyMove_failures[of "exState exThree Waiting P1" P1 3]
      applyMove_failures[of "exState exThree Won P1" P1 3]
      applyMove_failures[of "exState exThree Playing P1" P2 3]
      applyMove_failures[of "exState exThree Playing P1" P1 7]
      applyMove_failures[of "exState exThree Playing P1" P1 "- 1"]
      applyMove_failures[of "exState exAlmostFull Playing P1" P1 1]
      applyMove_failures[of "exState exAlmostFull Playing P1" P1 0]
      st cols
    by simp
qed

text \<open>
  C1.  For a game that is Playing, on the turn of the player who moves, with a 6x7 board and a
  column in [0,7) that has an empty cell, \<^verbatim>\<open>applyMove\<close> returns the landed row, which
  is the lowest empty row of the column; the mover's mark is placed there; \<^verbatim>\<open>lastMove\<close> is
  (column, landed row, mover); if the placement completes a run of four the status is Won, the
  winner is the mover and \<^verbatim>\<open>nextTurn\<close> is unchanged; otherwise, if the top row has no
  empty cell, the status is Draw; otherwise \<^verbatim>\<open>nextTurn\<close> flips to the other player: to P2
  when P1 has moved, to P1 when P2 has moved.
\<close>

theorem applyMove_success:
  assumes wf: "wf_board (board st)"
      and playing: "status st = Playing" and turn: "nextTurn st = byPlayer"
      and col: "0 \<le> col" "col < 7"
      and empty: "columnHasEmpty (board st) col"
  shows "\<exists>row st'. applyMove st byPlayer col = Some (Inr row, st')
      \<and> lowestEmptyRow (board st) col row
      \<and> board st' = setCell (board st) row col (cellValue byPlayer)
      \<and> cell (board st') row col = Some (cellValue byPlayer)
      \<and> lastMove st' = Some \<lparr>lm_col = col, lm_row = row, lm_by = byPlayer\<rparr>
      \<and> (if fourThrough (board st') row col
           then status st' = Won \<and> winner st' = Some byPlayer \<and> nextTurn st' = nextTurn st
         else if topRowFull (board st')
           then status st' = Draw \<and> winner st' = winner st \<and> nextTurn st' = nextTurn st
         else status st' = Playing \<and> winner st' = winner st \<and> nextTurn st' \<noteq> byPlayer
              \<and> nextTurn st' \<noteq> nextTurn st
              \<and> nextTurn st' = (case byPlayer of P1 \<Rightarrow> P2 | P2 \<Rightarrow> P1))"
proof -
  let ?b = "board st"
  from empty obtain r where r: "r < length ?b" "cell ?b (int r) col = Some 0"
      "\<forall>r'. r < r' \<and> r' < length ?b \<longrightarrow> cell ?b (int r') col \<noteq> Some 0"
      "applyMove_loop st byPlayer col (length ?b) = landMove st byPlayer col (int r)"
    using applyMove_loop_found[of "length ?b" st col byPlayer] unfolding columnHasEmpty_nat by blast
  let ?b' = "setCell ?b (int r) col (cellValue byPlayer)"
  have low: "lowestEmptyRow ?b col (int r)" using r(2,3) by (rule lowestEmptyRow_nat)
  have wf': "wf_board ?b'" using wf by simp
  have r6: "int r < 6" using r(1) wf by (simp add: wf_board_def)
  have win: "checkWin ?b' (int r) col = Some (fourThrough ?b' (int r) col)"
    using wf' r6 by (intro wf_checkWin) simp_all
  from landMove_eq[OF r(2), of byPlayer] win
  have land: "landMove st byPlayer col (int r) =
       Some (Inr (int r),
         (let st1 = st\<lparr>board := ?b', lastMove := Some \<lparr>lm_col = col, lm_row = int r, lm_by = byPlayer\<rparr>\<rparr>
          in if fourThrough ?b' (int r) col then st1\<lparr>status := Won, winner := Some byPlayer\<rparr>
             else if topRowFull ?b' then st1\<lparr>status := Draw\<rparr>
             else st1\<lparr>nextTurn := otherPlayer byPlayer\<rparr>))"
    by (auto simp: Let_def)
  have app: "applyMove st byPlayer col = landMove st byPlayer col (int r)"
    using playing turn col r(4) by (simp add: applyMove_def)
  have placed: "cell ?b' (int r) col = Some (cellValue byPlayer)"
    using r(2) by (simp add: cell_setCell)
  have flip: "otherPlayer byPlayer \<noteq> byPlayer"
      "otherPlayer byPlayer = (case byPlayer of P1 \<Rightarrow> P2 | P2 \<Rightarrow> P1)"
    by (cases byPlayer; simp add: otherPlayer_def)+
  show ?thesis
    unfolding app land using low placed playing turn flip
    by (intro exI[of _ "int r"]) (simp add: Let_def)
qed

theorem applyMove_success_witness:
  "(\<exists>st'. applyMove (exState exThree Playing P1) P1 3 = Some (Inr 5, st') \<and> status st' = Won
       \<and> winner st' = Some P1 \<and> nextTurn st' = P1 \<and> cell (board st') 5 3 = Some 1)
   \<and> (\<exists>st'. applyMove (exState exThree Playing P1) P1 0 = Some (Inr 3, st') \<and> status st' = Playing
       \<and> nextTurn st' = P2)
   \<and> (\<exists>st'. applyMove (exState exThree Playing P2) P2 0 = Some (Inr 3, st') \<and> status st' = Playing
       \<and> nextTurn st' = P1 \<and> cell (board st') 3 0 = Some 2)
   \<and> (\<exists>st'. applyMove (exState exAlmostFull Playing P1) P1 0 = Some (Inr 0, st') \<and> status st' = Draw)"
proof -
  let ?s = "exState exThree Playing P1"
  let ?u = "exState exThree Playing P2"
  let ?t = "exState exAlmostFull Playing P1"
  have hs: "wf_board (board ?s)" "status ?s = Playing" "nextTurn ?s = P1"
    by code_simp+
  have hu: "wf_board (board ?u)" "status ?u = Playing" "nextTurn ?u = P2"
    by code_simp+
  have ht: "wf_board (board ?t)" "status ?t = Playing" "nextTurn ?t = P1"
    by code_simp+
  have e3: "columnHasEmpty (board ?s) 3" and e0: "columnHasEmpty (board ?s) 0"
    and g0: "columnHasEmpty (board ?u) 0" and f0: "columnHasEmpty (board ?t) 0"
    by code_simp+
  have r1: "map_option fst (applyMove ?s P1 3) = Some (Inr 5)"
    and r2: "map_option fst (applyMove ?s P1 0) = Some (Inr 3)"
    and r4: "map_option fst (applyMove ?u P2 0) = Some (Inr 3)"
    and r3: "map_option fst (applyMove ?t P1 0) = Some (Inr 0)"
    by code_simp+
  have w1: "fourThrough (setCell (board ?s) 5 3 (cellValue P1)) 5 3"
    and w2: "\<not> fourThrough (setCell (board ?s) 3 0 (cellValue P1)) 3 0"
    and d2: "\<not> topRowFull (setCell (board ?s) 3 0 (cellValue P1))"
    and w4: "\<not> fourThrough (setCell (board ?u) 3 0 (cellValue P2)) 3 0"
    and d4: "\<not> topRowFull (setCell (board ?u) 3 0 (cellValue P2))"
    and w3: "\<not> fourThrough (setCell (board ?t) 0 0 (cellValue P1)) 0 0"
    and d3: "topRowFull (setCell (board ?t) 0 0 (cellValue P1))"
    by code_simp+
  have v: "cellValue P1 = 1" "cellValue P2 = 2" by code_simp+
  have c1: "\<exists>st'. applyMove ?s P1 3 = Some (Inr 5, st') \<and> status st' = Won
       \<and> winner st' = Some P1 \<and> nextTurn st' = P1 \<and> cell (board st') 5 3 = Some 1"
    using applyMove_success[OF hs(1) hs(2) hs(3), of 3] e3 r1 w1 hs(3) v by auto
  have c2: "\<exists>st'. applyMove ?s P1 0 = Some (Inr 3, st') \<and> status st' = Playing \<and> nextTurn st' = P2"
    using applyMove_success[OF hs(1) hs(2) hs(3), of 0] e0 r2 w2 d2 v by auto
  have c4: "\<exists>st'. applyMove ?u P2 0 = Some (Inr 3, st') \<and> status st' = Playing \<and> nextTurn st' = P1
       \<and> cell (board st') 3 0 = Some 2"
    using applyMove_success[OF hu(1) hu(2) hu(3), of 0] g0 r4 w4 d4 v by auto
  have c3: "\<exists>st'. applyMove ?t P1 0 = Some (Inr 0, st') \<and> status st' = Draw"
    using applyMove_success[OF ht(1) ht(2) ht(3), of 0] f0 r3 w3 d3 by auto
  from c1 c2 c3 c4 show ?thesis by blast
qed

section \<open>Claims about win detection\<close>

text \<open>
  C3.  Take a 6x7 board on which the full-board scan \<^verbatim>\<open>checkWinner\<close> finds no winner, and
  write one value at a cell \<open>(row, col)\<close> of it.  On the new board the anchored check
  \<^verbatim>\<open>checkWin(board, row, col)\<close> returns, and it returns true exactly when the full-board
  scan finds a winner.
\<close>

theorem checkWin_agrees_with_checkWinner:
  assumes wf: "wf_board b" and before: "checkWinner b = None"
      and rng: "0 \<le> row" "row < 6" "0 \<le> col" "col < 7"
  shows "checkWin (setCell b row col v) row col = Some (checkWinner (setCell b row col v) \<noteq> None)"
proof -
  let ?b' = "setCell b row col v"
  have wf': "wf_board ?b'" using wf by simp
  from wf_cell_in[OF wf rng] have here: "cell b row col \<noteq> None" by auto
  have cell': "cell ?b' r c = (if r = row \<and> c = col then Some v else cell b r c)" for r c
    using here by (simp add: cell_setCell)
  have nob: "\<not> hasLine b u" if "u \<noteq> 0" for u
    using before that unfolding wf_checkWinner_None[OF wf] by blast
  have "fourThrough ?b' row col \<longleftrightarrow> checkWinner ?b' \<noteq> None"
  proof
    assume "fourThrough ?b' row col"
    from fourThrough_hasLine[OF wf' this] show "checkWinner ?b' \<noteq> None"
      unfolding wf_checkWinner_None[OF wf'] by blast
  next
    assume "checkWinner ?b' \<noteq> None"
    then obtain w where w: "checkWinner ?b' = Some w" by blast
    define u where "u = w_player w"
    from wf_checkWinner_Some[OF wf' w] have u0: "u \<noteq> 0" and "hasLine ?b' u" by (simp_all add: u_def)
    then obtain r c dr dc where d: "(dr, dc) \<in> set directions" and l: "line4 ?b' u r c dr dc"
      unfolding wf_hasLine[OF wf'] by blast
    have "\<exists>k\<in>{0..3}. row = r + k * dr \<and> col = c + k * dc"
    proof (rule ccontr)
      assume "\<not> (\<exists>k\<in>{0..3}. row = r + k * dr \<and> col = c + k * dc)"
      then have "cell ?b' (r + k * dr) (c + k * dc) = cell b (r + k * dr) (c + k * dc)"
        if "k \<in> {0..3}" for k using that cell' by auto
      from line4_cong[of ?b' r dr c dc b u, OF this] l have "line4 b u r c dr dc" by simp
      with d have "hasLine b u" unfolding wf_hasLine[OF wf] by blast
      with nob[OF u0] show False by simp
    qed
    then obtain k where k: "k \<in> {0..3}" "row = r + k * dr" "col = c + k * dc" by blast
    from line4_cells[OF l k(1)] k have at: "cell ?b' row col = Some u" by simp
    have "line4 ?b' u (row - k * dr) (col - k * dc) dr dc" using l k by simp
    moreover have "k \<in> set [0..3]" using k(1) by simp
    ultimately have "\<exists>(dr, dc)\<in>set directions. \<exists>j\<in>set [0..3].
        line4 ?b' u (row - j * dr) (col - j * dc) dr dc"
      using d by blast
    with at u0 show "fourThrough ?b' row col"
      unfolding fourThrough_def by simp
  qed
  moreover have "checkWin ?b' row col = Some (fourThrough ?b' row col)"
    using wf' rng by (intro wf_checkWin) simp_all
  ultimately show ?thesis by simp
qed

theorem checkWin_agrees_with_checkWinner_witness:
  "checkWin (setCell exThree 5 3 1) 5 3 = Some True \<and> checkWinner (setCell exThree 5 3 1) \<noteq> None \<and>
   checkWin (setCell exThree 5 4 1) 5 4 = Some False \<and> checkWinner (setCell exThree 5 4 1) = None"
proof -
  have h: "wf_board exThree" "checkWinner exThree = None" by code_simp+
  have a: "checkWin (setCell exThree 5 3 1) 5 3 = Some True"
    and b: "checkWinner (setCell exThree 5 4 1) = None" by code_simp+
  from checkWin_agrees_with_checkWinner[OF h, of 5 3 1] checkWin_agrees_with_checkWinner[OF h, of 5 4 1] a b
  show ?thesis by simp
qed


section \<open>Claims about reachable boards and the draw test\<close>

text \<open>
  C4.  Every board reachable from the empty 6x7 board by \<open>n\<close> successful \<^verbatim>\<open>applyMove\<close> calls
  (the server's or the client's) is a 6x7 board that satisfies the gravity invariant: a column
  has no empty cell exactly when its top cell is occupied, and no cell below an occupied cell
  of the same column is empty.  It has exactly \<open>n\<close> non-empty cells, and no column holds more
  than 6 marks.
\<close>

theorem reachable_boards:
  assumes "reachable b n"
  shows "wf_board b \<and> fullIffTop b \<and> gravity b \<and> countMarks b = n \<and> (\<forall>c\<in>set [0..6]. columnMarks b c \<le> 6)"
proof -
  from reachable_invariant[OF assms] have inv: "wf_board b" "gravity b" "countMarks b = n" by simp_all
  have "columnMarks b c \<le> 6" for c
  proof -
    have "columnMarks b c \<le> length [0..int (length b) - 1]"
      unfolding columnMarks_def by (rule length_filter_le)
    also have "\<dots> = 6" using inv(1) by (simp add: wf_board_def)
    finally show ?thesis .
  qed
  with inv gravity_fullIffTop[OF inv(1,2)] show ?thesis by simp
qed

theorem reachable_boards_witness:
  "reachable exTwoMoves 2 \<and> wf_board exTwoMoves \<and> fullIffTop exTwoMoves \<and> gravity exTwoMoves
     \<and> countMarks exTwoMoves = 2 \<and> columnMarks exTwoMoves 3 \<le> 6"
proof -
  note r = reachable_exTwoMoves
  have "(3::int) \<in> set [0..6]" by simp
  with reachable_boards[OF r] r show ?thesis by blast
qed

text \<open>
  C5.  The draw test returns true exactly when the top row (row 0) has no empty cell: the
  server's \<^verbatim>\<open>checkDraw\<close> on every board with a row, and the client's \<^verbatim>\<open>isBoardFull\<close>,
  which looks at every cell, on every board that moves can reach (every 6x7 board that
  satisfies the gravity invariant), where the two tests agree.  In the server's
  \<^verbatim>\<open>applyMove\<close> a game is marked Draw only when the win check at the landed cell has
  returned false and the draw test true, and whenever the win check returns true the game is
  Won by the mover, never Draw.
\<close>

theorem draw_tests:
  "(b \<noteq> [] \<longrightarrow> checkDraw b = Some (topRowFull b)) \<and>
   (isBoardFull b \<longleftrightarrow> (\<forall>row\<in>set b. \<forall>x\<in>set row. x \<noteq> 0)) \<and>
   (wf_board b \<and> gravity b \<longrightarrow> isBoardFull b = topRowFull b) \<and>
   (reachable b n \<longrightarrow> isBoardFull b = topRowFull b \<and> checkDraw b = Some (isBoardFull b)) \<and>
   (applyMove st byPlayer col = Some (Inr row, st') \<longrightarrow>
      (status st' = Draw \<longrightarrow>
         checkWin (board st') row col = Some False \<and> checkDraw (board st') = Some True) \<and>
      (checkWin (board st') row col = Some True \<longrightarrow> status st' = Won \<and> winner st' = Some byPlayer))"
proof -
  have p1: "b \<noteq> [] \<longrightarrow> checkDraw b = Some (topRowFull b)" using checkDraw_eq by blast
  have p2: "isBoardFull b \<longleftrightarrow> (\<forall>row\<in>set b. \<forall>x\<in>set row. x \<noteq> 0)" by (rule isBoardFull_iff)
  have p3: "wf_board b \<and> gravity b \<longrightarrow> isBoardFull b = topRowFull b" using gravity_full by blast
  have p4: "(status st' = Draw \<longrightarrow>
         checkWin (board st') row col = Some False \<and> checkDraw (board st') = Some True) \<and>
      (checkWin (board st') row col = Some True \<longrightarrow> status st' = Won \<and> winner st' = Some byPlayer)"
    if mv: "applyMove st byPlayer col = Some (Inr row, st')"
  proof -
    let ?b' = "setCell (board st) row col (cellValue byPlayer)"
    from applyMove_Inr[OF mv] obtain w where w: "status st = Playing"
        "lowestEmptyRow (board st) col row" "checkWin ?b' row col = Some w"
        "st' = (let st1 = st\<lparr>board := ?b', lastMove := Some \<lparr>lm_col = col, lm_row = row, lm_by = byPlayer\<rparr>\<rparr>
                 in if w then st1\<lparr>status := Won, winner := Some byPlayer\<rparr>
                    else if topRowFull ?b' then st1\<lparr>status := Draw\<rparr>
                    else st1\<lparr>nextTurn := otherPlayer byPlayer\<rparr>)"
      by (auto simp: Let_def)
    from w(2) have "cell (board st) row col = Some 0" by (simp add: lowestEmptyRow_def)
    from cell_Some_range[OF this] have "0 < length ?b'" by auto
    then have ne: "?b' \<noteq> []" by blast
    from w(4) have b': "board st' = ?b'" by (simp add: Let_def)
    have drawn: "checkWin (board st') row col = Some False \<and> checkDraw (board st') = Some True"
      if d: "status st' = Draw"
    proof -
      from w(1,4) d have "\<not> w" "topRowFull ?b'" by (auto simp: Let_def split: if_splits)
      with w(3) checkDraw_eq[OF ne] show ?thesis unfolding b' by simp
    qed
    have won: "status st' = Won \<and> winner st' = Some byPlayer"
      if win: "checkWin (board st') row col = Some True"
    proof -
      from win w(3) have "w" unfolding b' by simp
      with w(4) show ?thesis by (simp add: Let_def)
    qed
    from drawn won show ?thesis by blast
  qed
  have p5: "isBoardFull b = topRowFull b \<and> checkDraw b = Some (isBoardFull b)" if r: "reachable b n"
  proof -
    from reachable_invariant[OF r] have inv: "wf_board b" "gravity b" by simp_all
    from inv(1) have "b \<noteq> []" by (auto simp: wf_board_def)
    with checkDraw_eq gravity_full[OF inv] show ?thesis by simp
  qed
  from p1 p2 p3 p4 p5 show ?thesis by blast
qed

theorem draw_tests_witness:
  "checkDraw exFull = Some True \<and> checkDraw exThree = Some False \<and> isBoardFull exFull \<and>
   \<not> isBoardFull exThree \<and> topRowFull exFull \<and>
   \<not> isBoardFull exTwoMoves \<and> checkDraw exTwoMoves = Some False \<and>
   (\<exists>st'. applyMove (exState exAlmostFull Playing P1) P1 0 = Some (Inr 0, st') \<and> status st' = Draw
      \<and> checkWin (board st') 0 0 = Some False) \<and>
   (\<exists>st'. applyMove (exState exThree Playing P1) P1 3 = Some (Inr 5, st') \<and> status st' = Won
      \<and> checkWin (board st') 5 3 = Some True)"
proof -
  have ne: "exFull \<noteq> []" "exThree \<noteq> []" by code_simp+
  have t: "topRowFull exFull" "\<not> topRowFull exThree" "\<not> topRowFull exTwoMoves" by code_simp+
  have g: "wf_board exFull \<and> gravity exFull" "wf_board exThree \<and> gravity exThree" by code_simp+
  define s1 where "s1 = snd (the (applyMove (exState exAlmostFull Playing P1) P1 0))"
  define s2 where "s2 = snd (the (applyMove (exState exThree Playing P1) P1 3))"
  have s1: "applyMove (exState exAlmostFull Playing P1) P1 0 = Some (Inr 0, s1)" "status s1 = Draw"
    unfolding s1_def by code_simp+
  have s2: "applyMove (exState exThree Playing P1) P1 3 = Some (Inr 5, s2)"
    "checkWin (board s2) 5 3 = Some True"
    unfolding s2_def by code_simp+
  have a: "checkDraw exFull = Some True \<and> isBoardFull exFull \<and> topRowFull exFull \<and>
      (\<exists>st'. applyMove (exState exAlmostFull Playing P1) P1 0 = Some (Inr 0, st') \<and> status st' = Draw
         \<and> checkWin (board st') 0 0 = Some False)"
    using draw_tests[of exFull 0 "exState exAlmostFull Playing P1" P1 0 0 s1] ne t g s1 by auto
  have b: "checkDraw exThree = Some False \<and> \<not> isBoardFull exThree \<and>
      (\<exists>st'. applyMove (exState exThree Playing P1) P1 3 = Some (Inr 5, st') \<and> status st' = Won
         \<and> checkWin (board st') 5 3 = Some True)"
    using draw_tests[of exThree 0 "exState exThree Playing P1" P1 3 5 s2] ne t g s2 by auto
  have c: "\<not> isBoardFull exTwoMoves \<and> checkDraw exTwoMoves = Some False"
    using draw_tests[of exTwoMoves 2 "exState exThree Playing P1" P1 3 5 s2] reachable_exTwoMoves t
    by auto
  from a b c show ?thesis by blast
qed

section \<open>Claims about the search agent\<close>

text \<open>
  C6.  On a 6x7 board \<^verbatim>\<open>minimax\<close> scores a position already won by the searching player as 100000 plus
  the remaining depth, and one won by the opponent as -100000 minus the remaining depth; with
  no winner, at depth 0 or with no legal column, it returns the heuristic evaluation.
  Otherwise it runs the loop of the node over the valid columns, which are in increasing order
  within 0..6 and all playable, starting from -Infinity (maximizing) or +Infinity (minimizing)
  and no column.  For the loop of a maximizing node entered with \<open>bestScore \<le> alpha < beta\<close>:
  if after the columns \<open>pre\<close> alpha (the maximum of alpha and the best score) has reached beta,
  the result is final whatever columns follow; if not, one more playable column replaces the
  best column only when its score is strictly greater, so that of equal scores the first
  column stays.  The loop of a minimizing node is the mirror image.
\<close>

theorem minimax_search:
  assumes wf: "wf_board b"
  shows
  "(winnerIs (checkWinner b) player \<longrightarrow>
      minimax b depth alpha beta maximizing player = (Fin (100000 + int depth), None)) \<and>
   (\<not> winnerIs (checkWinner b) player \<and> winnerIs (checkWinner b) (opponentOf player) \<longrightarrow>
      minimax b depth alpha beta maximizing player = (Fin (- 100000 - int depth), None)) \<and>
   (\<not> winnerIs (checkWinner b) player \<and> \<not> winnerIs (checkWinner b) (opponentOf player) \<and>
      (depth = 0 \<or> getValidColumns b = []) \<longrightarrow>
      minimax b depth alpha beta maximizing player = (Fin (scorePosition b player), None)) \<and>
   (\<not> winnerIs (checkWinner b) player \<and> \<not> winnerIs (checkWinner b) (opponentOf player) \<and>
      depth \<noteq> 0 \<and> getValidColumns b \<noteq> [] \<longrightarrow>
      minimax b depth alpha beta True player =
        maximizing_loop (\<lambda>nextBoard a be. minimax nextBoard (depth - 1) a be False player)
          b player alpha beta (getValidColumns b) NegInf None \<and>
      minimax b depth alpha beta False player =
        minimizing_loop (\<lambda>nextBoard a be. minimax nextBoard (depth - 1) a be True player)
          b (opponentOf player) alpha beta (getValidColumns b) PosInf None) \<and>
   sorted_wrt (<) (getValidColumns b) \<and> set (getValidColumns b) \<subseteq> {0..6} \<and>
   (\<forall>col\<in>set (getValidColumns b). applyMove_client b col player \<noteq> None) \<and>
   (bestScore \<le> alpha \<and> alpha < beta \<and>
      maximizing_loop child b mover alpha beta pre bestScore bestCol = (s, c) \<longrightarrow>
      (beta \<le> max alpha s \<longrightarrow>
         maximizing_loop child b mover alpha beta (pre @ post) bestScore bestCol = (s, c)) \<and>
      (max alpha s < beta \<and> applyMove_client b col mover = Some nextBoard \<longrightarrow>
         maximizing_loop child b mover alpha beta (pre @ [col]) bestScore bestCol =
           (if s < fst (child nextBoard (max alpha s) beta)
            then (fst (child nextBoard (max alpha s) beta), Some col) else (s, c)))) \<and>
   (beta \<le> bestScore \<and> alpha < beta \<and>
      minimizing_loop child b mover alpha beta pre bestScore bestCol = (s, c) \<longrightarrow>
      (min beta s \<le> alpha \<longrightarrow>
         minimizing_loop child b mover alpha beta (pre @ post) bestScore bestCol = (s, c)) \<and>
      (alpha < min beta s \<and> applyMove_client b col mover = Some nextBoard \<longrightarrow>
         minimizing_loop child b mover alpha beta (pre @ [col]) bestScore bestCol =
           (if fst (child nextBoard alpha (min beta s)) < s
            then (fst (child nextBoard alpha (min beta s)), Some col) else (s, c))))"
proof -
  have t1: "winnerIs (checkWinner b) player \<longrightarrow>
      minimax b depth alpha beta maximizing player = (Fin (100000 + int depth), None)"
    by (subst minimax.simps) (simp add: Let_def)
  have t2: "\<not> winnerIs (checkWinner b) player \<and> winnerIs (checkWinner b) (opponentOf player) \<longrightarrow>
      minimax b depth alpha beta maximizing player = (Fin (- 100000 - int depth), None)"
    by (subst minimax.simps) (simp add: Let_def)
  have t3: "\<not> winnerIs (checkWinner b) player \<and> \<not> winnerIs (checkWinner b) (opponentOf player) \<and>
      (depth = 0 \<or> getValidColumns b = []) \<longrightarrow>
      minimax b depth alpha beta maximizing player = (Fin (scorePosition b player), None)"
    by (subst minimax.simps) (auto simp: Let_def)
  have t4: "\<not> winnerIs (checkWinner b) player \<and> \<not> winnerIs (checkWinner b) (opponentOf player) \<and>
      depth \<noteq> 0 \<and> getValidColumns b \<noteq> [] \<longrightarrow>
      minimax b depth alpha beta True player =
        maximizing_loop (\<lambda>nextBoard a be. minimax nextBoard (depth - 1) a be False player)
          b player alpha beta (getValidColumns b) NegInf None \<and>
      minimax b depth alpha beta False player =
        minimizing_loop (\<lambda>nextBoard a be. minimax nextBoard (depth - 1) a be True player)
          b (opponentOf player) alpha beta (getValidColumns b) PosInf None"
    by (subst minimax.simps, subst (2) minimax.simps) (simp add: Let_def)
  have t5: "\<forall>col\<in>set (getValidColumns b). applyMove_client b col player \<noteq> None"
    using getValidColumns_playable[of _ b player] by simp
  have t6: "(beta \<le> max alpha s \<longrightarrow>
         maximizing_loop child b mover alpha beta (pre @ post) bestScore bestCol = (s, c)) \<and>
      (max alpha s < beta \<and> applyMove_client b col mover = Some nextBoard \<longrightarrow>
         maximizing_loop child b mover alpha beta (pre @ [col]) bestScore bestCol =
           (if s < fst (child nextBoard (max alpha s) beta)
            then (fst (child nextBoard (max alpha s) beta), Some col) else (s, c)))"
    if h: "bestScore \<le> alpha" "alpha < beta"
      "maximizing_loop child b mover alpha beta pre bestScore bestCol = (s, c)"
  proof (intro conjI impI)
    assume "beta \<le> max alpha s"
    then have "\<not> max alpha s < beta" by (rule leD)
    then show "maximizing_loop child b mover alpha beta (pre @ post) bestScore bestCol = (s, c)"
      unfolding maximizing_loop_append[OF h(1,2)] h(3) prod.case by (simp only: if_False)
  next
    assume a: "max alpha s < beta \<and> applyMove_client b col mover = Some nextBoard"
    define r where "r = fst (child nextBoard (max alpha s) beta)"
    have "maximizing_loop child b mover alpha beta (pre @ [col]) bestScore bestCol =
          maximizing_loop child b mover (max alpha s) beta [col] s c"
      unfolding maximizing_loop_append[OF h(1,2)] h(3) prod.case using a by simp
    also have "\<dots> = (if s < r then (r, Some col) else (s, c))"
      using a by (simp add: maximizing_loop.simps(2) Let_def r_def)
    finally show "maximizing_loop child b mover alpha beta (pre @ [col]) bestScore bestCol =
           (if s < fst (child nextBoard (max alpha s) beta)
            then (fst (child nextBoard (max alpha s) beta), Some col) else (s, c))"
      unfolding r_def .
  qed
  have t7: "(min beta s \<le> alpha \<longrightarrow>
         minimizing_loop child b mover alpha beta (pre @ post) bestScore bestCol = (s, c)) \<and>
      (alpha < min beta s \<and> applyMove_client b col mover = Some nextBoard \<longrightarrow>
         minimizing_loop child b mover alpha beta (pre @ [col]) bestScore bestCol =
           (if fst (child nextBoard alpha (min beta s)) < s
            then (fst (child nextBoard alpha (min beta s)), Some col) else (s, c)))"
    if h: "beta \<le> bestScore" "alpha < beta"
      "minimizing_loop child b mover alpha beta pre bestScore bestCol = (s, c)"
  proof (intro conjI impI)
    assume "min beta s \<le> alpha"
    then have "\<not> alpha < min beta s" by (rule leD)
    then show "minimizing_loop child b mover alpha beta (pre @ post) bestScore bestCol = (s, c)"
      unfolding minimizing_loop_append[OF h(1,2)] h(3) prod.case by (simp only: if_False)
  next
    assume a: "alpha < min beta s \<and> applyMove_client b col mover = Some nextBoard"
    define r where "r = fst (child nextBoard alpha (min beta s))"
    have "minimizing_loop child b mover alpha beta (pre @ [col]) bestScore bestCol =
          minimizing_loop child b mover alpha (min beta s) [col] s c"
      unfolding minimizing_loop_append[OF h(1,2)] h(3) prod.case using a by simp
    also have "\<dots> = (if r < s then (r, Some col) else (s, c))"
      using a by (simp add: minimizing_loop.simps(2) Let_def r_def)
    finally show "minimizing_loop child b mover alpha beta (pre @ [col]) bestScore bestCol =
           (if fst (child nextBoard alpha (min beta s)) < s
            then (fst (child nextBoard alpha (min beta s)), Some col) else (s, c))"
      unfolding r_def .
  qed
  from t1 t2 t3 t4 t5 t6 t7 getValidColumns_order[of b] show ?thesis by blast
qed

theorem minimax_search_witness:
  "minimax exWon 3 NegInf PosInf False 1 = (Fin 100003, None) \<and>
   minimax exWon 2 NegInf PosInf True 2 = (Fin (- 100002), None) \<and>
   minimax exThree 0 NegInf PosInf True 1 = (Fin (scorePosition exThree 1), None) \<and>
   minimax exFull 3 NegInf PosInf True 1 = (Fin (scorePosition exFull 1), None) \<and>
   minimax exThree 2 NegInf PosInf True 1 =
     maximizing_loop (\<lambda>nextBoard a be. minimax nextBoard 1 a be False 1) exThree 1 NegInf PosInf
       [0, 1, 2, 3, 4, 5, 6] NegInf None \<and>
   maximizing_loop (\<lambda>nb a be. minimax nb 0 a be False 1) emptyBoard 1 NegInf PosInf ([0] @ [1]) NegInf None
     = (Fin 0, Some 0) \<and>
   maximizing_loop (\<lambda>nb a be. minimax nb 0 a be False 1) emptyBoard 1 NegInf PosInf ([0] @ [3]) NegInf None
     = (Fin 3, Some 3) \<and>
   maximizing_loop (\<lambda>nb a be. minimax nb 0 a be False 1) emptyBoard 1 NegInf (Fin 0)
     ([0] @ [1, 2, 3, 4, 5, 6]) NegInf None = (Fin 0, Some 0) \<and>
   minimizing_loop (\<lambda>nb a be. minimax nb 0 a be True 1) exThree 2 NegInf PosInf ([0] @ [1]) PosInf None
     = (Fin 7, Some 0) \<and>
   minimizing_loop (\<lambda>nb a be. minimax nb 0 a be True 1) exThree 2 (Fin 7) PosInf
     ([0] @ [1, 2, 3, 4, 5, 6]) PosInf None = (Fin 7, Some 0)"
proof -
  let ?cmax = "\<lambda>nb a be. minimax nb 0 a be False 1"
  let ?cmin = "\<lambda>nb a be. minimax nb 0 a be True 1"
  have wf: "wf_board exWon" "wf_board exThree" "wf_board exFull" "wf_board emptyBoard"
    by code_simp+
  have w: "winnerIs (checkWinner exWon) 1" "\<not> winnerIs (checkWinner exWon) 2" "opponentOf 2 = 1"
      "opponentOf 1 = 2"
      "\<not> winnerIs (checkWinner exThree) 1" "\<not> winnerIs (checkWinner exThree) 2"
      "\<not> winnerIs (checkWinner exFull) 1" "\<not> winnerIs (checkWinner exFull) 2"
      "getValidColumns exFull = []" "getValidColumns exThree = [0, 1, 2, 3, 4, 5, 6]"
    by code_simp+
  have a1: "minimax exWon 3 NegInf PosInf False 1 = (Fin 100003, None)"
    using minimax_search[where b = exWon and player = 1 and depth = 3 and alpha = NegInf and beta = PosInf
        and maximizing = False] w wf
    by simp
  have a2: "minimax exWon 2 NegInf PosInf True 2 = (Fin (- 100002), None)"
    using minimax_search[where b = exWon and player = 2 and depth = 2 and alpha = NegInf and beta = PosInf
        and maximizing = True] w wf
    by simp
  have a3: "minimax exThree 0 NegInf PosInf True 1 = (Fin (scorePosition exThree 1), None)"
    using minimax_search[where b = exThree and player = 1 and depth = 0 and alpha = NegInf and beta = PosInf
        and maximizing = True] w wf
    by simp
  have a4: "minimax exFull 3 NegInf PosInf True 1 = (Fin (scorePosition exFull 1), None)"
    using minimax_search[where b = exFull and player = 1 and depth = 3 and alpha = NegInf and beta = PosInf
        and maximizing = True] w wf
    by simp
  have "(2::nat) - 1 = 1" by simp
  then have a5: "minimax exThree 2 NegInf PosInf True 1 =
     maximizing_loop (\<lambda>nextBoard a be. minimax nextBoard 1 a be False 1) exThree 1 NegInf PosInf
       [0, 1, 2, 3, 4, 5, 6] NegInf None"
    using minimax_search[where b = exThree and player = 1 and depth = 2 and alpha = NegInf and beta = PosInf] w wf
    by simp
  have o: "NegInf \<le> NegInf" "NegInf < PosInf" "NegInf < Fin 0" "Fin 0 \<le> max NegInf (Fin 0)"
      "max NegInf (Fin 0) < PosInf" "PosInf \<le> PosInf" "Fin 7 < PosInf" "min PosInf (Fin 7) \<le> Fin 7"
      "NegInf < min PosInf (Fin 7)"
    by code_simp+
  have m0: "maximizing_loop ?cmax emptyBoard 1 NegInf PosInf [0] NegInf None = (Fin 0, Some 0)"
    and m0': "maximizing_loop ?cmax emptyBoard 1 NegInf (Fin 0) [0] NegInf None = (Fin 0, Some 0)"
    and n0: "minimizing_loop ?cmin exThree 2 NegInf PosInf [0] PosInf None = (Fin 7, Some 0)"
    and n0': "minimizing_loop ?cmin exThree 2 (Fin 7) PosInf [0] PosInf None = (Fin 7, Some 0)"
    by code_simp+
  have p: "applyMove_client emptyBoard 1 1 = Some (setCell emptyBoard 5 1 1)"
      "applyMove_client emptyBoard 3 1 = Some (setCell emptyBoard 5 3 1)"
      "applyMove_client exThree 1 2 = Some (setCell exThree 3 1 2)"
    by code_simp+
  have c: "\<not> Fin 0 < fst (?cmax (setCell emptyBoard 5 1 1) (max NegInf (Fin 0)) PosInf)"
      "fst (?cmax (setCell emptyBoard 5 3 1) (max NegInf (Fin 0)) PosInf) = Fin 3" "Fin 0 < Fin 3"
      "\<not> fst (?cmin (setCell exThree 3 1 2) NegInf (min PosInf (Fin 7))) < Fin 7"
    by code_simp+
  have a6: "maximizing_loop ?cmax emptyBoard 1 NegInf PosInf ([0] @ [1]) NegInf None = (Fin 0, Some 0)"
    using minimax_search[where b = emptyBoard and mover = 1 and alpha = NegInf and beta = PosInf
        and child = ?cmax and pre = "[0]" and bestScore = NegInf and bestCol = None and s = "Fin 0"
        and c = "Some 0" and col = 1 and nextBoard = "setCell emptyBoard 5 1 1"] o m0 p c wf
    by simp
  have a7: "maximizing_loop ?cmax emptyBoard 1 NegInf PosInf ([0] @ [3]) NegInf None = (Fin 3, Some 3)"
    using minimax_search[where b = emptyBoard and mover = 1 and alpha = NegInf and beta = PosInf
        and child = ?cmax and pre = "[0]" and bestScore = NegInf and bestCol = None and s = "Fin 0"
        and c = "Some 0" and col = 3 and nextBoard = "setCell emptyBoard 5 3 1"] o m0 p c wf
    by simp
  have a8: "maximizing_loop ?cmax emptyBoard 1 NegInf (Fin 0) ([0] @ [1, 2, 3, 4, 5, 6]) NegInf None
      = (Fin 0, Some 0)"
    using minimax_search[where b = emptyBoard and mover = 1 and alpha = NegInf and beta = "Fin 0"
        and child = ?cmax and pre = "[0]" and bestScore = NegInf and bestCol = None and s = "Fin 0"
        and c = "Some 0" and post = "[1, 2, 3, 4, 5, 6]"] o m0' wf
    by simp
  have a9: "minimizing_loop ?cmin exThree 2 NegInf PosInf ([0] @ [1]) PosInf None = (Fin 7, Some 0)"
    using minimax_search[where b = exThree and mover = 2 and alpha = NegInf and beta = PosInf
        and child = ?cmin and pre = "[0]" and bestScore = PosInf and bestCol = None and s = "Fin 7"
        and c = "Some 0" and col = 1 and nextBoard = "setCell exThree 3 1 2"] o n0 p c wf
    by simp
  have a10: "minimizing_loop ?cmin exThree 2 (Fin 7) PosInf ([0] @ [1, 2, 3, 4, 5, 6]) PosInf None
      = (Fin 7, Some 0)"
    using minimax_search[where b = exThree and mover = 2 and alpha = "Fin 7" and beta = PosInf
        and child = ?cmin and pre = "[0]" and bestScore = PosInf and bestCol = None and s = "Fin 7"
        and c = "Some 0" and post = "[1, 2, 3, 4, 5, 6]"] o n0' wf
    by simp
  from a1 a2 a3 a4 a5 a6 a7 a8 a9 a10 show ?thesis by blast
qed

text \<open>
  C7.  Take a board of a game in progress: 6x7, cells in {0, 1, 2}, and no four in a line yet
  for the other player (the client asks for a computer move only while no winner is set).  If
  some legal column gives the computer player (1 or 2) four in a line at once, then
  \<^verbatim>\<open>chooseComputerMove\<close> at Medium and at Hard returns a legal column whose move gives the
  computer four in a line: the first such column in the order 0..6.
\<close>

theorem chooseComputerMove_takes_win:
  assumes wf: "wf_board b" and vc: "validCells b"
      and p: "computerPlayer = 1 \<or> computerPlayer = 2"
      and others: "\<forall>q\<in>set [1, 2]. q \<noteq> computerPlayer \<longrightarrow> \<not> hasLine b q"
      and level: "level = Medium \<or> level = Hard"
      and win: "\<exists>col\<in>set (getValidColumns b). immediateWin b col computerPlayer"
  shows "\<exists>col. chooseComputerMove b level computerPlayer rnd = Some col
           \<and> col \<in> set (getValidColumns b) \<and> immediateWin b col computerPlayer
           \<and> (\<forall>c\<in>set (getValidColumns b). c < col \<longrightarrow> \<not> immediateWin b c computerPlayer)"
proof -
  have no: "\<not> hasLine b (opponentOf computerPlayer)"
    using p others by (auto simp: opponentOf_def)
  let ?valid = "getValidColumns b"
  let ?wins = "filter (\<lambda>c. immediateWin b c computerPlayer) ?valid"
  from win have "?wins \<noteq> []" by (simp add: filter_empty_conv)
  then obtain col rest where wins: "?wins = col # rest" by (cases ?wins) auto
  have found: "findWinningMove b computerPlayer = Some col"
    unfolding findWinningMove_def findWinningMove_loop_first[OF wf vc p no] wins by simp
  have "col \<in> set ?wins" using wins by simp
  then have col: "col \<in> set ?valid" "immediateWin b col computerPlayer" by auto
  have sorted: "sorted_wrt (<) ?valid"
    unfolding getValidColumns_def by (intro sorted_wrt_filter) simp
  have first: "\<not> immediateWin b c computerPlayer" if "c \<in> set ?valid" "c < col" for c
  proof
    assume "immediateWin b c computerPlayer"
    with that(1) have "c \<in> set ?wins" by simp
    moreover have "sorted_wrt (<) ?wins" using sorted by (rule sorted_wrt_filter)
    ultimately have "col \<le> c" unfolding wins by auto
    with that(2) show False by simp
  qed
  have ne: "?valid \<noteq> []" using col(1) by auto
  have "chooseComputerMove b level computerPlayer rnd = Some col"
    using level ne found by (auto simp: chooseComputerMove_def Let_def)
  with col first show ?thesis by blast
qed

theorem chooseComputerMove_takes_win_witness:
  "chooseComputerMove exThree Medium 1 0 = Some 3 \<and> chooseComputerMove exThree Hard 1 0 = Some 3
     \<and> immediateWin exThree 3 1
     \<and> chooseComputerMove exThreeOfTwo Medium 2 0 = Some 5
     \<and> chooseComputerMove exThreeOfTwo Hard 2 0 = Some 5 \<and> immediateWin exThreeOfTwo 5 2"
proof -
  have h: "wf_board exThree" "validCells exThree" "(1::nat) = 1 \<or> (1::nat) = 2"
      "\<forall>q\<in>set [1, 2]. q \<noteq> (1::nat) \<longrightarrow> \<not> hasLine exThree q"
    by code_simp+
  have k: "wf_board exThreeOfTwo" "validCells exThreeOfTwo" "(2::nat) = 1 \<or> (2::nat) = 2"
      "\<forall>q\<in>set [1, 2]. q \<noteq> (2::nat) \<longrightarrow> \<not> hasLine exThreeOfTwo q"
    by code_simp+
  have w: "\<exists>col\<in>set (getValidColumns exThree). immediateWin exThree col 1"
    and x: "\<exists>col\<in>set (getValidColumns exThreeOfTwo). immediateWin exThreeOfTwo col 2"
    by code_simp+
  have only: "filter (\<lambda>c. immediateWin exThree c 1) (getValidColumns exThree) = [3]"
    and only2: "filter (\<lambda>c. immediateWin exThreeOfTwo c 2) (getValidColumns exThreeOfTwo) = [5]"
    by code_simp+
  have pick: "col = 3" if "col \<in> set (getValidColumns exThree)" "immediateWin exThree col 1" for col
  proof -
    from that have "col \<in> set (filter (\<lambda>c. immediateWin exThree c 1) (getValidColumns exThree))" by simp
    then show ?thesis unfolding only by simp
  qed
  have pick2: "col = 5"
    if "col \<in> set (getValidColumns exThreeOfTwo)" "immediateWin exThreeOfTwo col 2" for col
  proof -
    from that have "col \<in> set (filter (\<lambda>c. immediateWin exThreeOfTwo c 2) (getValidColumns exThreeOfTwo))"
      by simp
    then show ?thesis unfolding only2 by simp
  qed
  have a: "chooseComputerMove exThree Medium 1 0 = Some 3 \<and> chooseComputerMove exThree Hard 1 0 = Some 3
     \<and> immediateWin exThree 3 1"
    using chooseComputerMove_takes_win[OF h(1,2,3,4) _ w, of Medium 0]
       chooseComputerMove_takes_win[OF h(1,2,3,4) _ w, of Hard 0] pick
    by auto
  have b: "chooseComputerMove exThreeOfTwo Medium 2 0 = Some 5
     \<and> chooseComputerMove exThreeOfTwo Hard 2 0 = Some 5 \<and> immediateWin exThreeOfTwo 5 2"
    using chooseComputerMove_takes_win[OF k(1,2,3,4) _ x, of Medium 0]
       chooseComputerMove_takes_win[OF k(1,2,3,4) _ x, of Hard 0] pick2
    by auto
  from a b show ?thesis by blast
qed

text \<open>
  C8.  For every 6x7 board and evaluating player, \<^verbatim>\<open>scorePosition\<close> is the sum over all windows
  of four consecutive cells along each axis of: 100 if all four cells are the player's, else 5
  if exactly three are the player's and one is empty, else 2 if exactly two are the player's
  and two are empty; minus 4 whenever exactly three are the opponent's and one is empty; plus
  3 for each of the player's marks in the center column.  Nothing else enters the sum.
\<close>

theorem scorePosition_is_window_sum:
  assumes "wf_board b"
  shows "scorePosition b player = heuristic_spec b player"
proof -
  let ?F = "\<lambda>w. windowValue player (windowCells b w)"
  have "sum_list (map ?F sourceWindows) = sum ?F (set sourceWindows)"
    using sourceWindows_perm(1) by (rule sum_list_distinct_conv_sum_set)
  also have "\<dots> = sum ?F (set allWindows)" by (simp only: sourceWindows_perm(3))
  also have "\<dots> = sum_list (map ?F allWindows)"
    using sourceWindows_perm(2) by (rule sum_list_distinct_conv_sum_set[symmetric])
  finally show ?thesis unfolding scorePosition_sum heuristic_spec_def by simp
qed

theorem scorePosition_is_window_sum_witness:
  "scorePosition exThree 1 = 7 \<and> heuristic_spec exThree 1 = 7 \<and>
   scorePosition exThree 2 = - 2 \<and> heuristic_spec exThree 2 = - 2"
proof -
  have wf: "wf_board exThree" by code_simp
  have "heuristic_spec exThree 1 = 7" "heuristic_spec exThree 2 = - 2" by code_simp+
  with scorePosition_is_window_sum[OF wf, of 1] scorePosition_is_window_sum[OF wf, of 2]
  show ?thesis by simp
qed

section \<open>Claims about rooms\<close>

text \<open>
  C9 (as amended).  The \<^verbatim>\<open>join_room\<close> handler of a connection rejects with ROOM_NOT_FOUND
  if no room has the code; else with ALREADY_IN_ROOM if the connection already occupies a
  room; else with ROOM_FULL if both player identities are taken in the room; the three checks
  in that order, and a rejection changes nothing and goes to the sender only.  Otherwise the
  connection gets the next free identity (P1 if free, else P2) and becomes a member of the
  room, whose \<^verbatim>\<open>lastActiveAt\<close> is set; the sender is sent \<^verbatim>\<open>room_joined\<close> with the state,
  and then every member of the room is sent the state.
\<close>

theorem join_room_cases:
  assumes conn: "map_of (conns sv) cid = Some c"
  shows "(map_of (rooms sv) code = None \<longrightarrow>
           join_room sv cid code now =
             (sv, [(cid, Error_reply (Some code) ROOM_NOT_FOUND ''Room not found'')])) \<and>
         (map_of (rooms sv) code = Some rm \<and> inRoom c \<longrightarrow>
           join_room sv cid code now =
             (sv, [(cid, Error_reply (Some code) ALREADY_IN_ROOM ''Already in a room'')])) \<and>
         (map_of (rooms sv) code = Some rm \<and> \<not> inRoom c \<and>
            P1 \<in> set (takenIds sv rm) \<and> P2 \<in> set (takenIds sv rm) \<longrightarrow>
           join_room sv cid code now =
             (sv, [(cid, Error_reply (Some code) ROOM_FULL ''Room is full'')])) \<and>
         (map_of (rooms sv) code = Some rm \<and> \<not> inRoom c \<and>
            \<not> (P1 \<in> set (takenIds sv rm) \<and> P2 \<in> set (takenIds sv rm)) \<longrightarrow>
           (\<exists>sv' rm' slot.
              slot = (if P1 \<notin> set (takenIds sv rm) then P1 else P2) \<and>
              join_room sv cid code now =
                (sv', (cid, Room_joined code slot (r_state rm'))
                      # map (\<lambda>member. (member, State_update code (r_state rm'))) (r_clients rm')) \<and>
              map_of (conns sv') cid = Some (c\<lparr>c_roomCode := Some code, c_playerId := Some slot\<rparr>) \<and>
              map_of (rooms sv') code = Some rm' \<and>
              cid \<in> set (r_clients rm') \<and> set (r_clients rm') = insert cid (set (r_clients rm)) \<and>
              lastActiveAt rm' = now \<and>
              slot \<in> set (takenIds sv' rm')))"
proof -
  have nf: "join_room sv cid code now =
             (sv, [(cid, Error_reply (Some code) ROOM_NOT_FOUND ''Room not found'')])"
    if "map_of (rooms sv) code = None"
    using that conn by (simp add: join_room_def)
  have already: "join_room sv cid code now =
             (sv, [(cid, Error_reply (Some code) ALREADY_IN_ROOM ''Already in a room'')])"
    if "map_of (rooms sv) code = Some rm" "inRoom c"
    using that conn by (simp add: join_room_def)
  have full: "join_room sv cid code now =
             (sv, [(cid, Error_reply (Some code) ROOM_FULL ''Room is full'')])"
    if "map_of (rooms sv) code = Some rm" "\<not> inRoom c"
       "P1 \<in> set (takenIds sv rm)" "P2 \<in> set (takenIds sv rm)"
    using that conn by (simp add: join_room_def pickPlayerId_def)
  have joins: "\<exists>sv' rm' slot.
              slot = (if P1 \<notin> set (takenIds sv rm) then P1 else P2) \<and>
              join_room sv cid code now =
                (sv', (cid, Room_joined code slot (r_state rm'))
                      # map (\<lambda>member. (member, State_update code (r_state rm'))) (r_clients rm')) \<and>
              map_of (conns sv') cid = Some (c\<lparr>c_roomCode := Some code, c_playerId := Some slot\<rparr>) \<and>
              map_of (rooms sv') code = Some rm' \<and>
              cid \<in> set (r_clients rm') \<and> set (r_clients rm') = insert cid (set (r_clients rm)) \<and>
              lastActiveAt rm' = now \<and>
              slot \<in> set (takenIds sv' rm')"
    if h: "map_of (rooms sv) code = Some rm" "\<not> inRoom c"
       "\<not> (P1 \<in> set (takenIds sv rm) \<and> P2 \<in> set (takenIds sv rm))"
  proof -
    define slot where "slot = (if P1 \<notin> set (takenIds sv rm) then P1 else P2)"
    define c' where "c' = c\<lparr>c_roomCode := Some code, c_playerId := Some slot\<rparr>"
    define sv1 where "sv1 = sv\<lparr>conns := AList.update cid c' (conns sv)\<rparr>"
    define rm1 where "rm1 = rm\<lparr>r_clients := (if cid \<in> set (r_clients rm) then r_clients rm
                                                 else r_clients rm @ [cid]), lastActiveAt := now\<rparr>"
    define rm2 where "rm2 = updatePresence sv1 rm1"
    define sv2 where "sv2 = sv1\<lparr>rooms := AList.update code rm2 (rooms sv1)\<rparr>"
    have pick: "pickPlayerId sv rm = Some slot" using h(3) by (auto simp: pickPlayerId_def slot_def)
    have res: "join_room sv cid code now =
        (sv2, (cid, Room_joined code slot (r_state rm2)) # broadcast rm2 (State_update code (r_state rm2)))"
      using conn h(1,2) pick
      by (simp add: join_room_def Let_def sv2_def rm2_def rm1_def sv1_def c'_def)
    have cl: "r_clients rm2 = r_clients rm1" "lastActiveAt rm2 = lastActiveAt rm1"
      by (simp_all add: rm2_def updatePresence_def Let_def)
    have members: "cid \<in> set (r_clients rm2)" "set (r_clients rm2) = insert cid (set (r_clients rm))"
      unfolding cl by (auto simp: rm1_def)
    have conn': "map_of (conns sv2) cid = Some c'"
      by (simp add: sv2_def sv1_def update_conv')
    have room': "map_of (rooms sv2) code = Some rm2"
      by (simp add: sv2_def update_conv')
    have "takenIds sv2 rm2 = takenIds sv1 rm2" by (simp add: takenIds_def sv2_def)
    moreover have "slot \<in> set (takenIds sv1 rm2)"
    proof -
      have "(case map_of (conns sv1) cid of None \<Rightarrow> None | Some x \<Rightarrow> c_playerId x) = Some slot"
        by (simp add: sv1_def update_conv' c'_def)
      with members(1) show ?thesis
        unfolding takenIds_def List.map_filter_def by force
    qed
    ultimately have taken: "slot \<in> set (takenIds sv2 rm2)" by simp
    have time: "lastActiveAt rm2 = now" unfolding cl by (simp add: rm1_def)
    show ?thesis
      using res conn' room' members time taken
      unfolding broadcast_def c'_def slot_def by blast
  qed
  from nf already full joins show ?thesis by blast
qed

theorem join_room_cases_witness:
  "join_room exRooms ''c2'' ''ZZZZ'' 5 =
     (exRooms, [(''c2'', Error_reply (Some ''ZZZZ'') ROOM_NOT_FOUND ''Room not found'')]) \<and>
   join_room exRooms ''c1'' ''BBBB'' 5 =
     (exRooms, [(''c1'', Error_reply (Some ''BBBB'') ALREADY_IN_ROOM ''Already in a room'')]) \<and>
   join_room exRooms ''c2'' ''BBBB'' 5 =
     (exRooms, [(''c2'', Error_reply (Some ''BBBB'') ROOM_FULL ''Room is full'')]) \<and>
   (\<exists>st'. snd (join_room exRooms ''c2'' ''AAAA'' 5) =
     [(''c2'', Room_joined ''AAAA'' P2 st'), (''c1'', State_update ''AAAA'' st'),
      (''c2'', State_update ''AAAA'' st')])"
proof -
  have c: "map_of (conns exRooms) ''c1'' = Some \<lparr>c_id = ''c1'', c_roomCode = Some ''AAAA'', c_playerId = Some P1\<rparr>"
      "map_of (conns exRooms) ''c2'' = Some \<lparr>c_id = ''c2'', c_roomCode = None, c_playerId = None\<rparr>"
    by code_simp+
  have r: "map_of (rooms exRooms) ''ZZZZ'' = None"
      "map_of (rooms exRooms) ''BBBB'' = Some ((createRoom ''BBBB'' 0)\<lparr>r_clients := [''c4'', ''c5'']\<rparr>)"
      "map_of (rooms exRooms) ''AAAA'' = Some ((createRoom ''AAAA'' 0)\<lparr>r_clients := [''c1'']\<rparr>)"
    by code_simp+
  have i: "inRoom \<lparr>c_id = ''c1'', c_roomCode = Some ''AAAA'', c_playerId = Some P1\<rparr>"
      "\<not> inRoom \<lparr>c_id = ''c2'', c_roomCode = None, c_playerId = None\<rparr>"
    by code_simp+
  have t: "takenIds exRooms ((createRoom ''BBBB'' 0)\<lparr>r_clients := [''c4'', ''c5'']\<rparr>) = [P1, P2]"
      "takenIds exRooms ((createRoom ''AAAA'' 0)\<lparr>r_clients := [''c1'']\<rparr>) = [P1]"
    by code_simp+
  have a1: "join_room exRooms ''c2'' ''ZZZZ'' 5 =
     (exRooms, [(''c2'', Error_reply (Some ''ZZZZ'') ROOM_NOT_FOUND ''Room not found'')])"
    using join_room_cases[OF c(2), where code = "''ZZZZ''" and now = 5] r(1) by simp
  have a2: "join_room exRooms ''c1'' ''BBBB'' 5 =
     (exRooms, [(''c1'', Error_reply (Some ''BBBB'') ALREADY_IN_ROOM ''Already in a room'')])"
    using join_room_cases[OF c(1), where code = "''BBBB''" and now = 5
        and rm = "(createRoom ''BBBB'' 0)\<lparr>r_clients := [''c4'', ''c5'']\<rparr>"] r(2) i(1) by simp
  have a3: "join_room exRooms ''c2'' ''BBBB'' 5 =
     (exRooms, [(''c2'', Error_reply (Some ''BBBB'') ROOM_FULL ''Room is full'')])"
    using join_room_cases[OF c(2), where code = "''BBBB''" and now = 5
        and rm = "(createRoom ''BBBB'' 0)\<lparr>r_clients := [''c4'', ''c5'']\<rparr>"] r(2) i(2) t(1) by simp
  have m: "r_clients (the (map_of (rooms (fst (join_room exRooms ''c2'' ''AAAA'' 5))) ''AAAA'')) = [''c1'', ''c2'']"
    by code_simp
  have free: "\<not> (P1 \<in> set [P1] \<and> P2 \<in> set [P1])" by simp
  from join_room_cases[OF c(2), where code = "''AAAA''" and now = 5
        and rm = "(createRoom ''AAAA'' 0)\<lparr>r_clients := [''c1'']\<rparr>"] r(3) i(2) free
  obtain sv' rm' where j: "join_room exRooms ''c2'' ''AAAA'' 5 =
        (sv', (''c2'', Room_joined ''AAAA'' P2 (r_state rm'))
              # map (\<lambda>member. (member, State_update ''AAAA'' (r_state rm'))) (r_clients rm'))"
      "map_of (rooms sv') ''AAAA'' = Some rm'"
    unfolding t(2) by auto
  from j have "rm' = the (map_of (rooms (fst (join_room exRooms ''c2'' ''AAAA'' 5))) ''AAAA'')" by simp
  with m have "r_clients rm' = [''c1'', ''c2'']" by simp
  with j(1) have a4: "\<exists>st'. snd (join_room exRooms ''c2'' ''AAAA'' 5) =
     [(''c2'', Room_joined ''AAAA'' P2 st'), (''c1'', State_update ''AAAA'' st'),
      (''c2'', State_update ''AAAA'' st')]"
    by simp
  from a1 a2 a3 a4 show ?thesis by blast
qed

text \<open>
  The order of the claim as written, already-in-room before room-not-found, is not the
  handler's: a connection that occupies a room and names a code that no room has is told
  ROOM_NOT_FOUND.
\<close>

theorem join_room_order_counterexample:
  "inRoom (the (map_of (conns exRooms) ''c1'')) \<and> map_of (rooms exRooms) ''ZZZZ'' = None \<and>
   join_room exRooms ''c1'' ''ZZZZ'' 5 =
     (exRooms, [(''c1'', Error_reply (Some ''ZZZZ'') ROOM_NOT_FOUND ''Room not found'')])"
  by code_simp

text \<open>
  C10.  One sweep at time \<open>now\<close> removes from the registry exactly the rooms that have no
  client attached and whose \<^verbatim>\<open>lastActiveAt\<close> is more than the TTL before \<open>now\<close>; every other
  room stays as it is.  In particular a room with a client attached is never removed, however
  long it has been idle.
\<close>

theorem sweep_removes_idle_rooms:
  assumes "distinct (map fst (rooms sv))"
  shows "map_of (rooms (sweep now sv)) code =
           (case map_of (rooms sv) code of
              None \<Rightarrow> None
            | Some rm \<Rightarrow>
                if r_clients rm = [] \<and> ROOM_TTL_MS < now - lastActiveAt rm then None else Some rm)
         \<and> (\<forall>rm. map_of (rooms sv) code = Some rm \<and> r_clients rm \<noteq> [] \<longrightarrow>
               map_of (rooms (sweep now sv)) code = Some rm)
         \<and> conns (sweep now sv) = conns sv"
proof -
  have iff: "(\<exists>rm. (code, rm) \<in> set (rooms sv) \<and> idle now rm) \<longleftrightarrow>
             (\<exists>rm. map_of (rooms sv) code = Some rm \<and> idle now rm)"
    using assms by simp
  have main: "map_of (rooms (sweep now sv)) code =
           (case map_of (rooms sv) code of
              None \<Rightarrow> None
            | Some rm \<Rightarrow>
                if r_clients rm = [] \<and> ROOM_TTL_MS < now - lastActiveAt rm then None else Some rm)"
    unfolding sweep_def using iff
    by (auto simp: sweep_loop_lookup idle_def split: option.splits)
  then show ?thesis by (auto simp: sweep_def)
qed

theorem sweep_removes_idle_rooms_witness:
  "map_of (rooms (sweep 700000 exRooms)) ''AAAA'' = map_of (rooms exRooms) ''AAAA'' \<and>
   map_of (rooms (sweep 700000 exRooms)) ''BBBB'' = map_of (rooms exRooms) ''BBBB'' \<and>
   map_of (rooms (sweep 700000 exRooms)) ''CCCC'' = None \<and>
   map_of (rooms (sweep 700000 exRooms)) ''DDDD'' = map_of (rooms exRooms) ''DDDD'' \<and>
   map_of (rooms (sweep 600000 exRooms)) ''CCCC'' = map_of (rooms exRooms) ''CCCC''"
proof -
  have d: "distinct (map fst (rooms exRooms))" by code_simp
  have r: "map_of (rooms exRooms) ''AAAA'' = Some ((createRoom ''AAAA'' 0)\<lparr>r_clients := [''c1'']\<rparr>)"
      "map_of (rooms exRooms) ''BBBB'' = Some ((createRoom ''BBBB'' 0)\<lparr>r_clients := [''c4'', ''c5'']\<rparr>)"
      "map_of (rooms exRooms) ''CCCC'' = Some (createRoom ''CCCC'' 0)"
      "map_of (rooms exRooms) ''DDDD'' = Some (createRoom ''DDDD'' 500000)"
    by (simp_all add: exRooms_def)
  have t: "ROOM_TTL_MS = 600000" by (simp add: ROOM_TTL_MS_def)
  from sweep_removes_idle_rooms[OF d, of 700000 "''AAAA''"] sweep_removes_idle_rooms[OF d, of 700000 "''BBBB''"]
    sweep_removes_idle_rooms[OF d, of 700000 "''CCCC''"] sweep_removes_idle_rooms[OF d, of 700000 "''DDDD''"]
    sweep_removes_idle_rooms[OF d, of 600000 "''CCCC''"]
  show ?thesis unfolding r t by (simp add: createRoom_def)
qed

end
